theory Spec2Isabelle
  imports Main "HOL-Library.Word" "HOL-Library.Multiset"
begin

section \<open>Data model\<close>

text \<open>
  The arrays of the program (\<open>std::vector<T>\<close>, raw \<open>T[]\<close>) are lists, with one
  exception: \<open>std::vector<bool>\<close> packs its elements into words and is modelled so
  where the program writes it from concurrent workers. The subscript operator of C++
  does not check its index: an access outside the array is undefined behaviour. Every
  such access is a branch of the model that ends the run with the value
  \<open>Inl OutOfBounds\<close>.
\<close>

datatype fault = OutOfBounds

text \<open>
  \<open>tbb::blocked_range<size_t>\<close>: the half-open index interval \<open>[begin, end)\<close>. Loop
  counters and lengths are the natural numbers that the \<open>size_t\<close> values stand for;
  values of type \<open>size_t\<close> that the program computes with (the running counts of
  \<open>vecFilter\<close>, the \<open>- 1\<close> of \<open>doFilter\<close>) are 64-bit words.
\<close>

type_synonym blocked_range = "nat \<times> nat"

type_synonym size_t = "64 word"

section \<open>The scheduler: range splitting, parallel_for, parallel_scan\<close>

text \<open>
  Modelled from the spec: the recursive range splitter (RangeSplitter, section 4.1) is
  part of the oneTBB library and not of the sources. A range is either handed to the
  body as it is (\<open>Leaf\<close>) or split at an index \<open>m\<close> into \<open>[begin, m)\<close> and
  \<open>[m, end)\<close>, which are split further. The tree is the scheduler's choice (grain
  size, number of workers); the program has no control over it.
\<close>

datatype range_tree = Leaf | Split nat range_tree range_tree

fun splits :: "range_tree \<Rightarrow> blocked_range \<Rightarrow> bool" where
  "splits Leaf (b, e) = True"
| "splits (Split m lft rgt) (b, e) =
     (b < m \<and> m < e \<and> splits lft (b, m) \<and> splits rgt (m, e))"

fun leaves :: "range_tree \<Rightarrow> blocked_range \<Rightarrow> blocked_range list" where
  "leaves Leaf (b, e) = [(b, e)]"
| "leaves (Split m lft rgt) (b, e) = leaves lft (b, m) @ leaves rgt (m, e)"

text \<open>
  Modelled from the spec: \<open>tbb::parallel_for(range, body)\<close> (ParallelMap and the scatter
  pass, sections 4.2, 4.4 and 5) is part of the oneTBB library. It splits the range,
  and calls the body once on every leaf, in an order that is not specified. A schedule
  is the tree of the splits together with the order in which the leaves are executed,
  given as a list of positions in the left-to-right list of the leaves; \<open>schedules\<close>
  says that the tree splits the range and that every leaf is executed once.

  \<open>parallel_for\<close> runs the leaves one after the other. That is what the workers of
  the library do to the memory when the stores of different leaves go to separate
  memory locations: the scatter pass of \<open>doFilter\<close> into a \<open>vector<T>\<close>, and
  \<open>doMap\<close> into an array that stores its elements separately. The one body of the
  program that does not keep to this, the map into the bit-packed \<open>vector<bool>\<close>, is
  run by \<open>parallel_for_workers\<close> below, which interleaves the workers access by
  access.
\<close>

type_synonym schedule = "range_tree \<times> nat list"

definition schedules :: "schedule \<Rightarrow> blocked_range \<Rightarrow> bool" where
  "schedules sched r \<longleftrightarrow>
     splits (fst sched) r \<and>
     distinct (snd sched) \<and>
     set (snd sched) = {0..<length (leaves (fst sched) r)}"

fun run_leaves ::
  "blocked_range list \<Rightarrow> (blocked_range \<Rightarrow> 's \<Rightarrow> fault + 's) \<Rightarrow> 's \<Rightarrow> fault + 's" where
  "run_leaves [] body s = Inr s"
| "run_leaves (r # rs) body s =
     (case body r s of Inl f \<Rightarrow> Inl f | Inr s' \<Rightarrow> run_leaves rs body s')"

definition parallel_for ::
  "schedule \<Rightarrow> blocked_range \<Rightarrow> (blocked_range \<Rightarrow> 's \<Rightarrow> fault + 's) \<Rightarrow> 's \<Rightarrow> fault + 's" where
  "parallel_for sched r body s =
     run_leaves (map (\<lambda>k. leaves (fst sched) r ! k) (snd sched)) body s"

text \<open>
  The order in which a schedule visits the indices of the range: leaf after leaf in the
  order of execution, and upwards within a leaf, as the loops of the bodies do.
\<close>

fun indices :: "blocked_range \<Rightarrow> nat list" where
  "indices (b, e) = [b..<e]"

definition visit_order :: "schedule \<Rightarrow> blocked_range \<Rightarrow> nat list" where
  "visit_order sched r =
     concat (map indices (map (\<lambda>k. leaves (fst sched) r ! k) (snd sched)))"

text \<open>
  Modelled from the spec: the pool of worker threads of section 5, for a body whose
  leaves share memory. Every leaf of the tree has a worker, whose state \<open>'w\<close> says
  where in the body it is. \<open>step\<close> is one access of a worker to the shared state
  (a worker that has finished its leaf stays as it is), and the list of worker numbers
  says which worker makes the next access. When the list is used up, the workers that
  have not finished run to the end one after the other, from left to right (\<open>resume\<close>),
  as \<open>tbb::parallel_for\<close> returns only when every leaf is done. So every list is an
  interleaving, and the empty list runs the leaves one after the other.
\<close>

type_synonym interleaving = "range_tree \<times> nat list"

fun run_interleaved ::
  "nat list \<Rightarrow> ('w \<Rightarrow> 's \<Rightarrow> fault + 'w \<times> 's) \<Rightarrow> 'w list \<Rightarrow> 's \<Rightarrow> fault + 'w list \<times> 's" where
  "run_interleaved [] step ws s = Inr (ws, s)"
| "run_interleaved (k # ks) step ws s =
     (if k < length ws then
        (case step (ws ! k) s of
           Inl f \<Rightarrow> Inl f
         | Inr (w, s') \<Rightarrow> run_interleaved ks step (ws[k := w]) s')
      else run_interleaved ks step ws s)"

fun run_to_end :: "'w list \<Rightarrow> ('w \<Rightarrow> 's \<Rightarrow> fault + 's) \<Rightarrow> 's \<Rightarrow> fault + 's" where
  "run_to_end [] resume s = Inr s"
| "run_to_end (w # ws) resume s =
     (case resume w s of Inl f \<Rightarrow> Inl f | Inr s' \<Rightarrow> run_to_end ws resume s')"

definition parallel_for_workers ::
  "interleaving \<Rightarrow> blocked_range \<Rightarrow> (blocked_range \<Rightarrow> 'w) \<Rightarrow>
   ('w \<Rightarrow> 's \<Rightarrow> fault + 'w \<times> 's) \<Rightarrow> ('w \<Rightarrow> 's \<Rightarrow> fault + 's) \<Rightarrow> 's \<Rightarrow> fault + 's" where
  "parallel_for_workers il r start step resume s =
     (case run_interleaved (snd il) step (map start (leaves (fst il) r)) s of
        Inl f \<Rightarrow> Inl f
      | Inr (ws, s') \<Rightarrow> run_to_end ws resume s')"

text \<open>
  Modelled from the spec: \<open>tbb::parallel_scan\<close> (ParallelScan, section 4.3, and
  ScanBody, section 3) is part of the oneTBB library. The body is an object with four
  operations: the call operator \<open>call is_final r\<close> that scans the range \<open>r\<close>, the
  splitting constructor \<open>split\<close> that makes a body with a fresh accumulator,
  \<open>rjoin this a\<close> for \<open>this.reverse_join(a)\<close> that puts the summary of the body
  \<open>a\<close> to the left in front of the one of \<open>this\<close>, and \<open>assign\<close>.

  Pre-scan: a leaf is scanned by a fresh body with the tag "not final"; the total of a
  node is the total of its left child followed by the one of its right child.
  Final scan: a node hands its incoming body to its left child and the incoming body
  joined with the total of the left child to its right child; a leaf is scanned with
  the tag "final" by the incoming body. The body that has scanned the last leaf is
  assigned to the caller's body.
\<close>

fun pre_scan ::
  "range_tree \<Rightarrow> blocked_range \<Rightarrow>
   (bool \<Rightarrow> blocked_range \<Rightarrow> 'b \<Rightarrow> 's \<Rightarrow> fault + 'b \<times> 's) \<Rightarrow>
   ('b \<Rightarrow> 'b) \<Rightarrow> ('b \<Rightarrow> 'b \<Rightarrow> 'b) \<Rightarrow> 'b \<Rightarrow> 's \<Rightarrow> fault + 'b \<times> 's" where
  "pre_scan Leaf (b, e) call split rjoin body s = call False (b, e) (split body) s"
| "pre_scan (Split m lft rgt) (b, e) call split rjoin body s =
     (case pre_scan lft (b, m) call split rjoin body s of
        Inl f \<Rightarrow> Inl f
      | Inr (left, s1) \<Rightarrow>
          (case pre_scan rgt (m, e) call split rjoin body s1 of
             Inl f \<Rightarrow> Inl f
           | Inr (right, s2) \<Rightarrow> Inr (rjoin right left, s2)))"

fun final_scan ::
  "range_tree \<Rightarrow> blocked_range \<Rightarrow>
   (bool \<Rightarrow> blocked_range \<Rightarrow> 'b \<Rightarrow> 's \<Rightarrow> fault + 'b \<times> 's) \<Rightarrow>
   ('b \<Rightarrow> 'b) \<Rightarrow> ('b \<Rightarrow> 'b \<Rightarrow> 'b) \<Rightarrow> 'b \<Rightarrow> 's \<Rightarrow> fault + 'b \<times> 's" where
  "final_scan Leaf (b, e) call split rjoin body s = call True (b, e) body s"
| "final_scan (Split m lft rgt) (b, e) call split rjoin body s =
     (case pre_scan lft (b, m) call split rjoin body s of
        Inl f \<Rightarrow> Inl f
      | Inr (left, s1) \<Rightarrow>
          (case final_scan lft (b, m) call split rjoin body s1 of
             Inl f \<Rightarrow> Inl f
           | Inr (left_done, s2) \<Rightarrow>
               final_scan rgt (m, e) call split rjoin (rjoin left body) s2))"

definition parallel_scan_body ::
  "range_tree \<Rightarrow> blocked_range \<Rightarrow>
   (bool \<Rightarrow> blocked_range \<Rightarrow> 'b \<Rightarrow> 's \<Rightarrow> fault + 'b \<times> 's) \<Rightarrow>
   ('b \<Rightarrow> 'b) \<Rightarrow> ('b \<Rightarrow> 'b \<Rightarrow> 'b) \<Rightarrow> ('b \<Rightarrow> 'b \<Rightarrow> 'b) \<Rightarrow>
   'b \<Rightarrow> 's \<Rightarrow> fault + 'b \<times> 's" where
  "parallel_scan_body t r call split rjoin assign body s =
     (case final_scan t r call split rjoin body s of
        Inl f \<Rightarrow> Inl f
      | Inr (final_body, s2) \<Rightarrow> Inr (assign body final_body, s2))"

text \<open>
  Modelled from the spec: the functional form
  \<open>tbb::parallel_scan(range, identity, scan, combine)\<close> used by \<open>doScan\<close>. The body is
  the running value alone: a fresh body holds \<open>identity\<close>, the call operator replaces
  the value by \<open>scan(r, value, is_final)\<close>, joining is \<open>combine(left, right)\<close>, and the
  value of the caller's body is returned.
\<close>

definition parallel_scan ::
  "range_tree \<Rightarrow> blocked_range \<Rightarrow> 'a \<Rightarrow>
   (blocked_range \<Rightarrow> 'a \<Rightarrow> bool \<Rightarrow> 's \<Rightarrow> fault + 'a \<times> 's) \<Rightarrow>
   ('a \<Rightarrow> 'a \<Rightarrow> 'a) \<Rightarrow> 's \<Rightarrow> fault + 'a \<times> 's" where
  "parallel_scan t r identity scan combine s =
     parallel_scan_body t r
       (\<lambda>is_final r v s. scan r v is_final s)
       (\<lambda>v. identity)
       (\<lambda>this a. combine a this)
       (\<lambda>this b. b)
       identity s"

section \<open>main.cpp: doMap\<close>

text \<open>
  The loop of the lambda in \<open>doMap\<close>:
  \<^verbatim>\<open>for (size_t i = r.begin(); i != r.end(); i++) { out[i] = invoke(func, in[i]); }\<close>
  \<open>doMap\<close> is a template. Here \<open>out\<close> is an array that stores every element in a
  memory location of its own (\<open>T[]\<close>, \<open>vector<T>\<close> for \<open>T\<close> other than \<open>bool\<close>), so
  that the store \<open>out[i] = \<dots>\<close> touches the element \<open>i\<close> only. The instance that the
  program calls, with \<open>out\<close> a \<open>vector<bool>\<close>, follows in the next section.
\<close>

function doMap_loop ::
  "('a \<Rightarrow> 'b) \<Rightarrow> 'a list \<Rightarrow> nat \<Rightarrow> nat \<Rightarrow> 'b list \<Rightarrow> fault + 'b list" where
  "doMap_loop func inp i e out =
     (if i \<noteq> e then
        (if i < length inp \<and> i < length out
         then doMap_loop func inp (Suc i) e (out[i := func (inp ! i)])
         else Inl OutOfBounds)
      else Inr out)"
  by pat_completeness auto
termination
  by (relation "measure (\<lambda>(func, inp, i, e, out). length out - i)") auto

definition doMap ::
  "schedule \<Rightarrow> 'b list \<Rightarrow> 'a list \<Rightarrow> ('a \<Rightarrow> 'b) \<Rightarrow> nat \<Rightarrow> fault + 'b list" where
  "doMap sched out inp func n =
     parallel_for sched (0, n) (\<lambda>r out. doMap_loop func inp (fst r) (snd r) out) out"

section \<open>main.cpp: doMap into a vector<bool>\<close>

text \<open>
  \<open>std::vector<bool>\<close> packs its elements into words of 64 bits: the element \<open>i\<close> is
  the bit \<open>i mod 64\<close> of the word \<open>i div 64\<close>. \<open>vector<bool> v(n)\<close> has \<open>n\<close> elements
  \<open>false\<close>. Reading \<open>v[i]\<close> tests the bit. The assignment \<open>v[i] = b\<close> goes through a
  proxy that loads the word, sets or clears the bit in the loaded value and stores the
  value back (\<open>*p |= mask\<close> or \<open>*p &= ~mask\<close>): two accesses to the memory, between
  which another worker can store to the same word.
\<close>

record vector_bool =
  vb_words :: "64 word list"
  vb_size :: nat

definition vector_bool_n :: "nat \<Rightarrow> vector_bool" where
  "vector_bool_n n = \<lparr>vb_words = replicate ((n + 63) div 64) 0, vb_size = n\<rparr>"

definition vb_get :: "vector_bool \<Rightarrow> nat \<Rightarrow> bool" where
  "vb_get v i = bit (vb_words v ! (i div 64)) (i mod 64)"

definition vb_list :: "vector_bool \<Rightarrow> bool list" where
  "vb_list v = map (vb_get v) [0..<vb_size v]"

definition vb_load :: "nat \<Rightarrow> vector_bool \<Rightarrow> 64 word" where
  "vb_load i v = vb_words v ! (i div 64)"

definition vb_store :: "nat \<Rightarrow> bool \<Rightarrow> 64 word \<Rightarrow> vector_bool \<Rightarrow> vector_bool" where
  "vb_store i b x v =
     v\<lparr>vb_words := (vb_words v)
        [i div 64 := (if b then set_bit (i mod 64) x else unset_bit (i mod 64) x)]\<rparr>"

text \<open>
  The loop of the lambda in \<open>doMap\<close> with \<open>out\<close> a \<open>vector<bool>\<close>, as a worker runs it
  when no other worker comes in between: every iteration loads the word of \<open>out[i]\<close>
  and stores it back with the bit \<open>i\<close> set to \<open>func(in[i])\<close>.
\<close>

function doMap_bits_loop ::
  "('a \<Rightarrow> bool) \<Rightarrow> 'a list \<Rightarrow> nat \<Rightarrow> nat \<Rightarrow> vector_bool \<Rightarrow> fault + vector_bool" where
  "doMap_bits_loop func inp i e out =
     (if i \<noteq> e then
        (if i < length inp \<and> i < vb_size out
         then doMap_bits_loop func inp (Suc i) e
                (vb_store i (func (inp ! i)) (vb_load i out) out)
         else Inl OutOfBounds)
      else Inr out)"
  by pat_completeness auto
termination
  by (relation "measure (\<lambda>(func, inp, i, e, out). vb_size out - i)") (auto simp: vb_store_def)

text \<open>
  The same loop access by access. A worker is at the head of the loop with its counter
  \<open>i\<close> and the end \<open>e\<close> of its leaf, or it has loaded the word of \<open>out[i]\<close> and is
  about to store it back. \<open>doMap_bits_resume\<close> runs a worker from where it is to the
  end of its leaf.
\<close>

datatype worker = At_loop nat nat | Loaded nat nat "64 word"

fun doMap_bits_step ::
  "('a \<Rightarrow> bool) \<Rightarrow> 'a list \<Rightarrow> worker \<Rightarrow> vector_bool \<Rightarrow> fault + worker \<times> vector_bool" where
  "doMap_bits_step func inp (At_loop i e) out =
     (if i \<noteq> e then
        (if i < length inp \<and> i < vb_size out
         then Inr (Loaded i e (vb_load i out), out)
         else Inl OutOfBounds)
      else Inr (At_loop i e, out))"
| "doMap_bits_step func inp (Loaded i e x) out =
     Inr (At_loop (Suc i) e, vb_store i (func (inp ! i)) x out)"

fun doMap_bits_resume ::
  "('a \<Rightarrow> bool) \<Rightarrow> 'a list \<Rightarrow> worker \<Rightarrow> vector_bool \<Rightarrow> fault + vector_bool" where
  "doMap_bits_resume func inp (At_loop i e) out = doMap_bits_loop func inp i e out"
| "doMap_bits_resume func inp (Loaded i e x) out =
     doMap_bits_loop func inp (Suc i) e (vb_store i (func (inp ! i)) x out)"

definition doMap_vector_bool ::
  "interleaving \<Rightarrow> vector_bool \<Rightarrow> 'a list \<Rightarrow> ('a \<Rightarrow> bool) \<Rightarrow> nat \<Rightarrow> fault + vector_bool" where
  "doMap_vector_bool il out inp func n =
     parallel_for_workers il (0, n) (\<lambda>r. At_loop (fst r) (snd r))
       (doMap_bits_step func inp) (doMap_bits_resume func inp) out"

text \<open>A worker is within its leaf, and the leaf within \<open>[0, n)\<close>.\<close>

fun worker_ok :: "nat \<Rightarrow> worker \<Rightarrow> bool" where
  "worker_ok n (At_loop i e) = (i \<le> e \<and> e \<le> n)"
| "worker_ok n (Loaded i e x) = (i < e \<and> e \<le> n)"

section \<open>main.cpp: doScan\<close>

text \<open>
  The lambda that \<open>doScan\<close> hands to \<open>tbb::parallel_scan\<close>:
  \<^verbatim>\<open>T tmp = sum;
  for (size_t i = r.begin(); i != r.end(); i++) {
      tmp = invoke(func, tmp, in[i]);
      if (is_final_scan) { out[i] = tmp; }
  }
  return tmp;\<close>
  The elements of \<open>in\<close> have their own type and are converted to \<open>T\<close> where they are
  handed to \<open>func\<close>; the conversion is the parameter \<open>conv\<close>.
\<close>

function doScan_loop ::
  "('a \<Rightarrow> 'a \<Rightarrow> 'a) \<Rightarrow> ('i \<Rightarrow> 'a) \<Rightarrow> 'i list \<Rightarrow> bool \<Rightarrow> nat \<Rightarrow> nat \<Rightarrow> 'a \<Rightarrow> 'a list \<Rightarrow>
   fault + 'a \<times> 'a list" where
  "doScan_loop func conv inp is_final_scan i e tmp out =
     (if i \<noteq> e then
        (if i < length inp then
           (if is_final_scan then
              (if i < length out
               then doScan_loop func conv inp is_final_scan (Suc i) e
                      (func tmp (conv (inp ! i))) (out[i := func tmp (conv (inp ! i))])
               else Inl OutOfBounds)
            else doScan_loop func conv inp is_final_scan (Suc i) e
                   (func tmp (conv (inp ! i))) out)
         else Inl OutOfBounds)
      else Inr (tmp, out))"
  by pat_completeness auto
termination
  by (relation "measure (\<lambda>(func, conv, inp, is_final_scan, i, e, tmp, out). length inp - i)")
    auto

definition doScan ::
  "range_tree \<Rightarrow> 'a list \<Rightarrow> 'i list \<Rightarrow> 'a \<Rightarrow> ('a \<Rightarrow> 'a \<Rightarrow> 'a) \<Rightarrow> ('i \<Rightarrow> 'a) \<Rightarrow> nat \<Rightarrow>
   fault + 'a \<times> 'a list" where
  "doScan t out inp ident func conv n =
     parallel_scan t (0, n) ident
       (\<lambda>r sum is_final_scan out.
          doScan_loop func conv inp is_final_scan (fst r) (snd r) sum out)
       func out"

section \<open>main.cpp: doFilter\<close>

text \<open>
  The loop of the lambda in \<open>doFilter\<close>:
  \<^verbatim>\<open>for (size_t i = r.begin(); i < r.end(); i++) {
      if (bolMatch[i]) { out[ixMatch[i] - 1] = in[i]; }
  }\<close>
  The elements of \<open>ixMatch\<close> are of type \<open>size_t\<close>: the subtraction wraps around at
  zero.
\<close>

function doFilter_loop ::
  "'a list \<Rightarrow> bool list \<Rightarrow> size_t list \<Rightarrow> nat \<Rightarrow> nat \<Rightarrow> 'a list \<Rightarrow> fault + 'a list" where
  "doFilter_loop inp bolMatch ixMatch i e out =
     (if i < e then
        (if i < length bolMatch then
           (if bolMatch ! i then
              (if i < length ixMatch \<and> i < length inp \<and> unat (ixMatch ! i - 1) < length out
               then doFilter_loop inp bolMatch ixMatch (Suc i) e
                      (out[unat (ixMatch ! i - 1) := inp ! i])
               else Inl OutOfBounds)
            else doFilter_loop inp bolMatch ixMatch (Suc i) e out)
         else Inl OutOfBounds)
      else Inr out)"
  by pat_completeness auto
termination
  by (relation "measure (\<lambda>(inp, bolMatch, ixMatch, i, e, out). e - i)") auto

definition doFilter ::
  "schedule \<Rightarrow> 'a list \<Rightarrow> 'a list \<Rightarrow> bool list \<Rightarrow> size_t list \<Rightarrow> nat \<Rightarrow> fault + 'a list" where
  "doFilter sched out inp bolMatch ixMatch n =
     parallel_for sched (0, n)
       (\<lambda>r out. doFilter_loop inp bolMatch ixMatch (fst r) (snd r) out) out"

text \<open>
  One iteration of that loop: the store \<open>out[ixMatch[i] - 1] = in[i]\<close> when
  \<open>bolMatch[i]\<close> holds, and nothing otherwise.
\<close>

definition scatter_store :: "'a list \<Rightarrow> bool list \<Rightarrow> size_t list \<Rightarrow> nat \<Rightarrow> 'a list \<Rightarrow> 'a list" where
  "scatter_store inp bolMatch ixMatch i out =
     (if bolMatch ! i then out[unat (ixMatch ! i - 1) := inp ! i] else out)"

section \<open>main.cpp: vecFilter\<close>

text \<open>
  The three steps of \<open>vecFilter\<close>, each with the schedule that the library chooses for
  it. \<open>vector<bool> bolMatch(n)\<close> starts as \<open>n\<close> times \<open>false\<close> and is written by
  \<open>doMap\<close> from concurrent workers; \<open>doScan\<close> and \<open>doFilter\<close> only read it, after
  the map has returned. \<open>vector<size_t> ixMatch(n)\<close> starts as \<open>n\<close> times \<open>0\<close>, and
  \<open>vector<T> filteredVec(outSize)\<close> as \<open>outSize\<close> copies of the value-initialised
  \<open>T\<close>, the parameter \<open>T_init\<close>. The booleans are converted to \<open>size_t\<close> where the
  combiner \<open>scanFunc\<close> takes them. The calls of \<open>printVec\<close> write to the console only
  and are left out.
\<close>

definition scanFunc :: "size_t \<Rightarrow> size_t \<Rightarrow> size_t" where
  "scanFunc a b = a + b"

definition vecFilter ::
  "interleaving \<Rightarrow> range_tree \<Rightarrow> schedule \<Rightarrow> 'a \<Rightarrow> 'a list \<Rightarrow> ('a \<Rightarrow> bool) \<Rightarrow> fault + 'a list" where
  "vecFilter sched_map tree_scan sched_filter T_init inputVec predicate =
     (let n = length inputVec in
      case doMap_vector_bool sched_map (vector_bool_n n) inputVec predicate n of
        Inl f \<Rightarrow> Inl f
      | Inr bolMatch \<Rightarrow>
          (case doScan tree_scan (replicate n 0) (vb_list bolMatch) 0 scanFunc of_bool n of
             Inl f \<Rightarrow> Inl f
           | Inr (outSize, ixMatch) \<Rightarrow>
               doFilter sched_filter (replicate (unat outSize) T_init)
                 inputVec (vb_list bolMatch) ixMatch n))"

section \<open>main.cpp: main\<close>

text \<open>
  The scenario of \<open>main\<close>: the input vector of \<open>int\<close> (32 bits, signed) and the
  predicate \<open>x > 10\<close>; a value-initialised \<open>int\<close> is \<open>0\<close>. The timing and the
  printing are left out.
\<close>

definition main_input :: "32 word list" where
  "main_input = [7, 1, 0, 13, 0, 15, 20, - 1]"

definition main_predicate :: "32 word \<Rightarrow> bool" where
  "main_predicate x \<longleftrightarrow> 10 <s x"

definition main_output :: "interleaving \<Rightarrow> range_tree \<Rightarrow> schedule \<Rightarrow> fault + 32 word list" where
  "main_output sched_map tree_scan sched_filter =
     vecFilter sched_map tree_scan sched_filter 0 main_input main_predicate"

section \<open>seqvsparallel.cpp: Body\<close>

text \<open>
  \<open>class Body\<close> has the running value \<open>sum\<close> and two pointers: \<open>x\<close> to the input,
  which is only read, and \<open>y\<close> to the output, which all bodies of one scan share. The
  record holds \<open>sum\<close>; the array behind \<open>x\<close> is a parameter of the operations and the
  array behind \<open>y\<close> is the state that they pass on.
\<close>

record 'a Body =
  Body_sum :: 'a

definition get_sum :: "'a Body \<Rightarrow> 'a" where
  "get_sum this = Body_sum this"

text \<open>
  \<open>USE_OPTIMISED_LOOP = 1\<close>: two loops, chosen by \<open>Tag::is_final_scan()\<close> once.
\<close>

function final_loop ::
  "'a::plus list \<Rightarrow> nat \<Rightarrow> nat \<Rightarrow> 'a Body \<Rightarrow> 'a list \<Rightarrow> fault + 'a Body \<times> 'a list" where
  "final_loop x i e this y =
     (if i < e then
        (if i < length x \<and> i < length y
         then final_loop x (Suc i) e
                (this\<lparr>Body_sum := Body_sum this + x ! i\<rparr>) (y[i := Body_sum this + x ! i])
         else Inl OutOfBounds)
      else Inr (this, y))"
  by pat_completeness auto
termination
  by (relation "measure (\<lambda>(x, i, e, this, y). e - i)") auto

function pre_loop ::
  "'a::plus list \<Rightarrow> nat \<Rightarrow> nat \<Rightarrow> 'a Body \<Rightarrow> 'a list \<Rightarrow> fault + 'a Body \<times> 'a list" where
  "pre_loop x i e this y =
     (if i < e then
        (if i < length x
         then pre_loop x (Suc i) e (this\<lparr>Body_sum := Body_sum this + x ! i\<rparr>) y
         else Inl OutOfBounds)
      else Inr (this, y))"
  by pat_completeness auto
termination
  by (relation "measure (\<lambda>(x, i, e, this, y). e - i)") auto

definition Body_call_optimised ::
  "'a::plus list \<Rightarrow> bool \<Rightarrow> blocked_range \<Rightarrow> 'a Body \<Rightarrow> 'a list \<Rightarrow> fault + 'a Body \<times> 'a list" where
  "Body_call_optimised x is_final_scan r this y =
     (if is_final_scan then final_loop x (fst r) (snd r) this y
      else pre_loop x (fst r) (snd r) this y)"

text \<open>
  \<open>USE_OPTIMISED_LOOP = 0\<close>: one loop that tests \<open>Tag::is_final_scan()\<close> in every
  iteration.
\<close>

function tagged_loop ::
  "'a::plus list \<Rightarrow> bool \<Rightarrow> nat \<Rightarrow> nat \<Rightarrow> 'a Body \<Rightarrow> 'a list \<Rightarrow> fault + 'a Body \<times> 'a list" where
  "tagged_loop x is_final_scan i e this y =
     (if i < e then
        (if i < length x then
           (if is_final_scan then
              (if i < length y
               then tagged_loop x is_final_scan (Suc i) e
                      (this\<lparr>Body_sum := Body_sum this + x ! i\<rparr>)
                      (y[i := Body_sum this + x ! i])
               else Inl OutOfBounds)
            else tagged_loop x is_final_scan (Suc i) e
                   (this\<lparr>Body_sum := Body_sum this + x ! i\<rparr>) y)
         else Inl OutOfBounds)
      else Inr (this, y))"
  by pat_completeness auto
termination
  by (relation "measure (\<lambda>(x, is_final_scan, i, e, this, y). e - i)") auto

definition Body_call_plain ::
  "'a::plus list \<Rightarrow> bool \<Rightarrow> blocked_range \<Rightarrow> 'a Body \<Rightarrow> 'a list \<Rightarrow> fault + 'a Body \<times> 'a list" where
  "Body_call_plain x is_final_scan r this y = tagged_loop x is_final_scan (fst r) (snd r) this y"

definition USE_OPTIMISED_LOOP :: bool where
  "USE_OPTIMISED_LOOP = False"

definition Body_call ::
  "'a::plus list \<Rightarrow> bool \<Rightarrow> blocked_range \<Rightarrow> 'a Body \<Rightarrow> 'a list \<Rightarrow> fault + 'a Body \<times> 'a list" where
  "Body_call x is_final_scan r this y =
     (if USE_OPTIMISED_LOOP then Body_call_optimised x is_final_scan r this y
      else Body_call_plain x is_final_scan r this y)"

text \<open>The splitting constructor \<open>Body(Body& b, split)\<close>, \<open>reverse_join\<close> and \<open>assign\<close>.\<close>

definition Body_split :: "'a::zero Body \<Rightarrow> 'a Body" where
  "Body_split b = \<lparr>Body_sum = 0\<rparr>"

definition reverse_join :: "'a::plus Body \<Rightarrow> 'a Body \<Rightarrow> 'a Body" where
  "reverse_join this a = this\<lparr>Body_sum := Body_sum a + Body_sum this\<rparr>"

definition assign :: "'a Body \<Rightarrow> 'a Body \<Rightarrow> 'a Body" where
  "assign this b = this\<lparr>Body_sum := Body_sum b\<rparr>"

section \<open>seqvsparallel.cpp: DoParallelScan and DoSerialScan\<close>

text \<open>The timing and the printing are left out.\<close>

definition DoParallelScan ::
  "range_tree \<Rightarrow> 'a::{zero,plus} list \<Rightarrow> 'a list \<Rightarrow> nat \<Rightarrow> fault + 'a \<times> 'a list" where
  "DoParallelScan t y x n =
     (case parallel_scan_body t (0, n) (Body_call x) Body_split reverse_join assign
             \<lparr>Body_sum = 0\<rparr> y of
        Inl f \<Rightarrow> Inl f
      | Inr (body, y') \<Rightarrow> Inr (get_sum body, y'))"

function DoSerialScan_loop ::
  "'a::plus list \<Rightarrow> nat \<Rightarrow> nat \<Rightarrow> 'a \<Rightarrow> 'a list \<Rightarrow> fault + 'a \<times> 'a list" where
  "DoSerialScan_loop x i n temp y =
     (if i < n then
        (if i < length x \<and> i < length y
         then DoSerialScan_loop x (Suc i) n (temp + x ! i) (y[i := temp + x ! i])
         else Inl OutOfBounds)
      else Inr (temp, y))"
  by pat_completeness auto
termination
  by (relation "measure (\<lambda>(x, i, n, temp, y). n - i)") auto

definition DoSerialScan :: "'a::{zero,plus} list \<Rightarrow> 'a list \<Rightarrow> nat \<Rightarrow> fault + 'a \<times> 'a list" where
  "DoSerialScan y x n = DoSerialScan_loop x 0 n 0 y"

section \<open>Reference: the sequential scan\<close>

text \<open>
  The sequential left-to-right fold that section 4.3 of the spec takes as the reference:
  \<open>running = start\<close>; for each element \<open>x\<close> in order, \<open>running = running \<oplus> x\<close>
  is the next output. \<open>segment xs b e\<close> is the part of an array in the range
  \<open>[b, e)\<close>.
\<close>

fun sequential_scan :: "('a \<Rightarrow> 'a \<Rightarrow> 'a) \<Rightarrow> 'a \<Rightarrow> 'a list \<Rightarrow> 'a list" where
  "sequential_scan f a [] = []"
| "sequential_scan f a (x # xs) = f a x # sequential_scan f (f a x) xs"

definition segment :: "'a list \<Rightarrow> nat \<Rightarrow> nat \<Rightarrow> 'a list" where
  "segment xs b e = take (e - b) (drop b xs)"

section \<open>Facts about schedules\<close>

text \<open>
  The leaves of a tree of splits, from left to right, cover the range without gaps or
  overlaps, and a schedule executes every leaf once: the indices that it visits are
  those of the range, each once. A body whose effect on a leaf is a fold of a step
  function over the indices of the leaf therefore makes \<open>parallel_for\<close> a fold of the
  step over the visited indices.
\<close>

lemma leaves_indices:
  "splits t (b, e) \<Longrightarrow> b \<le> e \<Longrightarrow> concat (map indices (leaves t (b, e))) = [b..<e]"
proof (induction t arbitrary: b e)
  case Leaf
  then show ?case by simp
next
  case (Split m lft rgt)
  from Split.prems have lt: "b < m" "m < e"
    and sl: "splits lft (b, m)" and sr: "splits rgt (m, e)"
    by simp_all
  have "concat (map indices (leaves lft (b, m))) = [b..<m]"
    using Split.IH(1) [OF sl] lt by simp
  moreover have "concat (map indices (leaves rgt (m, e))) = [m..<e]"
    using Split.IH(2) [OF sr] lt by simp
  moreover have "[b..<m] @ [m..<e] = [b..<e]"
    using lt by (metis less_imp_le_nat upt_add_eq_append le_add_diff_inverse)
  ultimately show ?case by simp
qed

lemma leaves_bounds:
  "splits t (b, e) \<Longrightarrow> b \<le> e \<Longrightarrow> q \<in> set (leaves t (b, e)) \<Longrightarrow>
   b \<le> fst q \<and> fst q \<le> snd q \<and> snd q \<le> e"
proof (induction t arbitrary: b e)
  case Leaf
  then show ?case by simp
next
  case (Split m lft rgt)
  from Split.prems have lt: "b < m" "m < e"
    and sl: "splits lft (b, m)" and sr: "splits rgt (m, e)"
    by simp_all
  from Split.prems(3) consider "q \<in> set (leaves lft (b, m))" | "q \<in> set (leaves rgt (m, e))"
    by auto
  then show ?case
  proof cases
    case 1
    from Split.IH(1) [OF sl _ 1] lt show ?thesis by simp
  next
    case 2
    from Split.IH(2) [OF sr _ 2] lt show ?thesis by simp
  qed
qed

lemma permuted_leaves:
  assumes "distinct order" and "set order = {0..<length rs}"
  shows "mset (map (\<lambda>k. rs ! k) order) = mset rs"
proof -
  have "mset order = mset [0..<length rs]"
    using assms by (metis distinct_upt atLeastLessThan_upt set_eq_iff_mset_eq_distinct)
  then have "mset (map (\<lambda>k. rs ! k) order) = mset (map (\<lambda>k. rs ! k) [0..<length rs])"
    by (metis mset_map)
  then show ?thesis by (simp add: map_nth)
qed

lemma mset_concat_sum: "mset (concat xss) = sum_mset (image_mset mset (mset xss))"
  by (induction xss) simp_all

lemma mset_concat_cong:
  "mset xss = mset yss \<Longrightarrow> mset (concat xss) = mset (concat yss)"
  by (simp add: mset_concat_sum)

lemma schedule_indices:
  assumes "schedules sched (0, n)"
  shows "mset (concat (map indices (map (\<lambda>k. leaves (fst sched) (0, n) ! k) (snd sched)))) = mset [0..<n]"
proof -
  let ?rs = "leaves (fst sched) (0, n)"
  from assms have sp: "splits (fst sched) (0, n)" and d: "distinct (snd sched)"
    and s: "set (snd sched) = {0..<length ?rs}"
    by (simp_all add: schedules_def)
  have "mset (map (\<lambda>k. ?rs ! k) (snd sched)) = mset ?rs"
    by (rule permuted_leaves [OF d s])
  then have "mset (map indices (map (\<lambda>k. ?rs ! k) (snd sched))) = mset (map indices ?rs)"
    by (metis mset_map)
  then have "mset (concat (map indices (map (\<lambda>k. ?rs ! k) (snd sched)))) = mset (concat (map indices ?rs))"
    by (rule mset_concat_cong)
  then show ?thesis using leaves_indices [OF sp] by simp
qed

lemma schedule_leaf_bounds:
  assumes "schedules sched (0, n)"
    and "q \<in> set (map (\<lambda>k. leaves (fst sched) (0, n) ! k) (snd sched))"
  shows "fst q \<le> snd q \<and> snd q \<le> n"
proof -
  let ?rs = "leaves (fst sched) (0, n)"
  from assms(1) have sp: "splits (fst sched) (0, n)"
    and s: "set (snd sched) = {0..<length ?rs}"
    by (simp_all add: schedules_def)
  from assms(2) obtain k where "k \<in> set (snd sched)" and q: "q = ?rs ! k" by auto
  with s have "k < length ?rs" by simp
  with q have "q \<in> set ?rs" by simp
  from leaves_bounds [OF sp _ this] show ?thesis by simp
qed

lemma run_leaves_fold:
  assumes "\<And>r s. r \<in> set rs \<Longrightarrow> P s \<Longrightarrow> body r s = Inr (fold step (indices r) s)"
    and "\<And>k s. P s \<Longrightarrow> P (step k s)"
    and "P s"
  shows "run_leaves rs body s = Inr (fold step (concat (map indices rs)) s)"
  using assms
proof (induction rs arbitrary: s)
  case Nil
  then show ?case by simp
next
  case (Cons r rs)
  have keep: "P (fold step ks s')" if "P s'" for ks s'
    using that by (induction ks arbitrary: s') (simp_all add: Cons.prems(2))
  have "body r s = Inr (fold step (indices r) s)"
    using Cons.prems(1) [of r s] Cons.prems(3) by simp
  moreover have "run_leaves rs body (fold step (indices r) s)
      = Inr (fold step (concat (map indices rs)) (fold step (indices r) s))"
    by (rule Cons.IH) (simp_all add: Cons.prems keep)
  ultimately show ?case by simp
qed

lemma doMap_loop_fold:
  "i \<le> e \<Longrightarrow> e \<le> length inp \<Longrightarrow> e \<le> length out \<Longrightarrow>
   doMap_loop func inp i e out = Inr (fold (\<lambda>k out. out[k := func (inp ! k)]) [i..<e] out)"
proof (induction func inp i e out rule: doMap_loop.induct)
  case (1 func inp i e out)
  show ?case
  proof (cases "i = e")
    case True
    then show ?thesis by simp
  next
    case False
    with "1.prems" have lt: "i < e" "i < length inp" "i < length out" by simp_all
    have "doMap_loop func inp (Suc i) e (out[i := func (inp ! i)])
        = Inr (fold (\<lambda>k out. out[k := func (inp ! k)]) [Suc i..<e] (out[i := func (inp ! i)]))"
      using "1.IH" [OF False] lt "1.prems" by simp
    moreover have "[i..<e] = i # [Suc i..<e]"
      using lt by (simp add: upt_conv_Cons)
    ultimately show ?thesis using False lt by (subst doMap_loop.simps) simp
  qed
qed

lemma fold_update_nth:
  "j < length out \<Longrightarrow>
   fold (\<lambda>k out. out[k := g k]) ks out ! j = (if j \<in> set ks then g j else out ! j)"
  by (induction ks arbitrary: out) (auto simp: nth_list_update)

lemma fold_update_length:
  "length (fold (\<lambda>k out. out[k := g k]) ks out) = length out"
  by (induction ks arbitrary: out) simp_all

lemma doMap_result:
  assumes sch: "schedules sched (0, n)" and li: "n \<le> length inp" and lo: "n \<le> length out"
  shows "doMap sched out inp func n = Inr (map func (take n inp) @ drop n out)"
proof -
  let ?rs = "map (\<lambda>k. leaves (fst sched) (0, n) ! k) (snd sched)"
  let ?step = "\<lambda>k out. out[k := func (inp ! k)]"
  let ?ks = "concat (map indices ?rs)"
  have "run_leaves ?rs (\<lambda>r out. doMap_loop func inp (fst r) (snd r) out) out
      = Inr (fold ?step ?ks out)"
  proof (rule run_leaves_fold [where P = "\<lambda>s. length s = length out"])
    fix r and s :: "'b list"
    assume r: "r \<in> set ?rs" and s: "length s = length out"
    from schedule_leaf_bounds [OF sch r] have "fst r \<le> snd r" "snd r \<le> n" by simp_all
    then have "doMap_loop func inp (fst r) (snd r) s = Inr (fold ?step [fst r..<snd r] s)"
      using li lo s by (intro doMap_loop_fold) simp_all
    then show "doMap_loop func inp (fst r) (snd r) s = Inr (fold ?step (indices r) s)"
      by (cases r) simp
  qed simp_all
  moreover have "fold ?step ?ks out = map func (take n inp) @ drop n out"
  proof (rule nth_equalityI)
    show "length (fold ?step ?ks out) = length (map func (take n inp) @ drop n out)"
      using li lo by (simp add: fold_update_length)
  next
    fix j assume "j < length (fold ?step ?ks out)"
    then have j: "j < length out" by (simp add: fold_update_length)
    have "set ?ks = {0..<n}"
      using schedule_indices [OF sch] by (metis mset_eq_setD set_upt)
    then have "fold ?step ?ks out ! j = (if j < n then func (inp ! j) else out ! j)"
      using fold_update_nth [OF j, of "\<lambda>k. func (inp ! k)" ?ks] by simp
    also have "\<dots> = (map func (take n inp) @ drop n out) ! j"
      using li lo j by (simp add: nth_append)
    finally show "fold ?step ?ks out ! j = (map func (take n inp) @ drop n out) ! j" .
  qed
  ultimately show ?thesis by (simp add: doMap_def parallel_for_def)
qed

section \<open>Facts about the scan\<close>

text \<open>
  The loop of \<open>doScan\<close> on a range is a left fold of the combiner and, with the tag
  "final", writes the running values into its part of the output. For an associative
  combiner with a right identity the total of the pre-scan of any tree is the fold of
  the identity over the range, so every leaf of the final scan starts from the fold of
  all that is to its left.
\<close>

declare doScan_loop.simps [simp del]

lemma sequential_scan_length [simp]: "length (sequential_scan f a xs) = length xs"
  by (induction xs arbitrary: a) simp_all

lemma sequential_scan_append:
  "sequential_scan f a (xs @ ys) = sequential_scan f a xs @ sequential_scan f (foldl f a xs) ys"
  by (induction xs arbitrary: a) simp_all

lemma sequential_scan_nth:
  "k < length xs \<Longrightarrow> sequential_scan f a xs ! k = foldl f a (take (Suc k) xs)"
proof (induction xs arbitrary: a k)
  case Nil
  then show ?case by simp
next
  case (Cons x xs)
  then show ?case by (cases k) simp_all
qed

lemma segment_empty [simp]: "segment xs b b = []"
  by (simp add: segment_def)

lemma segment_Cons: "b < e \<Longrightarrow> e \<le> length xs \<Longrightarrow> segment xs b e = xs ! b # segment xs (Suc b) e"
proof -
  assume be: "b < e" and el: "e \<le> length xs"
  then have "drop b xs = xs ! b # drop (Suc b) xs"
    by (simp add: Cons_nth_drop_Suc)
  moreover from be have "e - b = Suc (e - Suc b)"
    by arith
  ultimately show ?thesis
    by (simp add: segment_def)
qed

lemma segment_append:
  "b \<le> m \<Longrightarrow> m \<le> e \<Longrightarrow> segment xs b m @ segment xs m e = segment xs b e"
proof -
  assume bm: "b \<le> m" and me: "m \<le> e"
  have "take ((m - b) + (e - m)) (drop b xs)
      = take (m - b) (drop b xs) @ take (e - m) (drop (m - b) (drop b xs))"
    by (rule take_add)
  moreover from bm me have "(m - b) + (e - m) = e - b"
    by arith
  moreover from bm have "drop (m - b) (drop b xs) = drop m xs"
    by simp
  ultimately show ?thesis
    by (simp add: segment_def)
qed

lemma segment_length [simp]: "e \<le> length xs \<Longrightarrow> length (segment xs b e) = e - b"
  by (simp add: segment_def)

lemma segment_all: "segment xs 0 n = take n xs"
  by (simp add: segment_def)

lemma doScan_loop_pre:
  "i \<le> e \<Longrightarrow> e \<le> length inp \<Longrightarrow>
   doScan_loop func conv inp False i e tmp out
     = Inr (foldl func tmp (map conv (segment inp i e)), out)"
proof (induction func conv inp "False" i e tmp out rule: doScan_loop.induct)
  case (1 func conv inp i e tmp out)
  show ?case
  proof (cases "i = e")
    case True
    then show ?thesis by (subst doScan_loop.simps) simp
  next
    case False
    with "1.prems" have lt: "i < e" "i < length inp" by simp_all
    have "doScan_loop func conv inp False (Suc i) e (func tmp (conv (inp ! i))) out
        = Inr (foldl func (func tmp (conv (inp ! i))) (map conv (segment inp (Suc i) e)), out)"
      using "1.hyps"(2) [OF False] lt "1.prems" by simp
    then show ?thesis
      using False lt "1.prems" by (subst doScan_loop.simps) (simp add: segment_Cons)
  qed
qed

lemma doScan_loop_final:
  "i \<le> e \<Longrightarrow> e \<le> length inp \<Longrightarrow> e \<le> length out \<Longrightarrow>
   doScan_loop func conv inp True i e tmp out
     = Inr (foldl func tmp (map conv (segment inp i e)),
            take i out @ sequential_scan func tmp (map conv (segment inp i e)) @ drop e out)"
proof (induction func conv inp "True" i e tmp out rule: doScan_loop.induct)
  case (1 func conv inp i e tmp out)
  show ?case
  proof (cases "i = e")
    case True
    then show ?thesis by (subst doScan_loop.simps) simp
  next
    case False
    with "1.prems" have lt: "i < e" "i < length inp" "i < length out" by simp_all
    let ?v = "func tmp (conv (inp ! i))"
    have "doScan_loop func conv inp True (Suc i) e ?v (out[i := ?v])
        = Inr (foldl func ?v (map conv (segment inp (Suc i) e)),
               take (Suc i) (out[i := ?v]) @ sequential_scan func ?v (map conv (segment inp (Suc i) e))
                 @ drop e (out[i := ?v]))"
      using "1.hyps"(1) [OF False] lt "1.prems" by simp
    moreover have "take (Suc i) (out[i := ?v]) = take i out @ [?v]"
      using lt by (simp add: take_Suc_conv_app_nth)
    moreover have "drop e (out[i := ?v]) = drop e out"
      using lt by simp
    ultimately show ?thesis
      using False lt "1.prems" by (subst doScan_loop.simps) (simp add: segment_Cons)
  qed
qed


lemma foldl_assoc:
  assumes "\<And>a b c. f (f a b) c = f a (f b c)"
  shows "f a (foldl f b xs) = foldl f (f a b) xs"
  by (induction xs arbitrary: b) (simp_all add: assms)

lemma pre_scan_total:
  assumes assoc: "\<And>a b c. func (func a b) c = func a (func b c)"
    and rid: "\<And>a. func a ident = a"
  shows "splits t (b, e) \<Longrightarrow> b \<le> e \<Longrightarrow> e \<le> length inp \<Longrightarrow>
    pre_scan t (b, e)
      (\<lambda>is_final r v s. doScan_loop func conv inp is_final (fst r) (snd r) v s)
      (\<lambda>v. ident) (\<lambda>this a. func a this) v out
    = Inr (foldl func ident (map conv (segment inp b e)), out)"
proof (induction t arbitrary: b e v out)
  case Leaf
  then show ?case by (simp add: doScan_loop_pre)
next
  case (Split m lft rgt)
  from Split.prems have lt: "b < m" "m < e"
    and sl: "splits lft (b, m)" and sr: "splits rgt (m, e)"
    by simp_all
  let ?L = "map conv (segment inp b m)" and ?R = "map conv (segment inp m e)"
  have "func (foldl func ident ?L) (foldl func ident ?R) = foldl func (foldl func ident ?L) ?R"
    by (simp add: foldl_assoc [OF assoc] rid)
  also have "\<dots> = foldl func ident (map conv (segment inp b e))"
    using lt by (simp add: segment_append [symmetric, of b m e])
  finally show ?case
    using Split.IH(1) [OF sl] Split.IH(2) [OF sr] lt Split.prems by simp
qed

lemma pre_scan_runs:
  "splits t (b, e) \<Longrightarrow> b \<le> e \<Longrightarrow> e \<le> length inp \<Longrightarrow>
    \<exists>total. pre_scan t (b, e)
      (\<lambda>is_final r v s. doScan_loop func conv inp is_final (fst r) (snd r) v s)
      (\<lambda>v. ident) (\<lambda>this a. func a this) v out
    = Inr (total, out)"
proof (induction t arbitrary: b e v out)
  case Leaf
  then show ?case by (simp add: doScan_loop_pre)
next
  case (Split m lft rgt)
  from Split.prems have lt: "b < m" "m < e"
    and sl: "splits lft (b, m)" and sr: "splits rgt (m, e)"
    by simp_all
  from Split.IH(1) [OF sl, of v out] lt Split.prems obtain tl where
    l: "pre_scan lft (b, m)
      (\<lambda>is_final r v s. doScan_loop func conv inp is_final (fst r) (snd r) v s)
      (\<lambda>v. ident) (\<lambda>this a. func a this) v out = Inr (tl, out)"
    by auto
  from Split.IH(2) [OF sr, of v out] lt Split.prems obtain tr where
    r: "pre_scan rgt (m, e)
      (\<lambda>is_final r v s. doScan_loop func conv inp is_final (fst r) (snd r) v s)
      (\<lambda>v. ident) (\<lambda>this a. func a this) v out = Inr (tr, out)"
    by auto
  from l r show ?case by simp
qed

lemma final_scan_result:
  assumes assoc: "\<And>a b c. func (func a b) c = func a (func b c)"
    and rid: "\<And>a. func a ident = a"
  shows "splits t (b, e) \<Longrightarrow> b \<le> e \<Longrightarrow> e \<le> length inp \<Longrightarrow> e \<le> length out \<Longrightarrow>
    final_scan t (b, e)
      (\<lambda>is_final r v s. doScan_loop func conv inp is_final (fst r) (snd r) v s)
      (\<lambda>v. ident) (\<lambda>this a. func a this) v out
    = Inr (foldl func v (map conv (segment inp b e)),
           take b out @ sequential_scan func v (map conv (segment inp b e)) @ drop e out)"
proof (induction t arbitrary: b e v out)
  case Leaf
  then show ?case by (simp add: doScan_loop_final)
next
  case (Split m lft rgt)
  from Split.prems have lt: "b < m" "m < e"
    and sl: "splits lft (b, m)" and sr: "splits rgt (m, e)"
    by simp_all
  from lt Split.prems have le: "b \<le> m" "m \<le> e" "m \<le> length inp" "m \<le> length out"
    and ee: "e \<le> length inp" "e \<le> length out"
    by simp_all
  let ?call = "\<lambda>is_final r v s. doScan_loop func conv inp is_final (fst r) (snd r) v s"
  let ?L = "map conv (segment inp b m)" and ?R = "map conv (segment inp m e)"
  define out1 where "out1 = take b out @ sequential_scan func v ?L @ drop m out"
  have LR: "map conv (segment inp b e) = ?L @ ?R"
    using lt by (simp add: segment_append [symmetric, of b m e])
  have pre: "pre_scan lft (b, m) ?call (\<lambda>v. ident) (\<lambda>this a. func a this) v out
      = Inr (foldl func ident ?L, out)"
    by (rule pre_scan_total [OF assoc rid sl le(1) le(3)])
  have left: "final_scan lft (b, m) ?call (\<lambda>v. ident) (\<lambda>this a. func a this) v out
      = Inr (foldl func v ?L, out1)"
    unfolding out1_def by (rule Split.IH(1) [OF sl le(1) le(3) le(4)])
  have incoming: "func v (foldl func ident ?L) = foldl func v ?L"
    by (simp add: foldl_assoc [OF assoc] rid)
  have len1: "length out1 = length out"
    using le ee by (simp add: out1_def)
  have right: "final_scan rgt (m, e) ?call (\<lambda>v. ident) (\<lambda>this a. func a this)
        (foldl func v ?L) out1
      = Inr (foldl func (foldl func v ?L) ?R,
             take m out1 @ sequential_scan func (foldl func v ?L) ?R @ drop e out1)"
    using Split.IH(2) [OF sr le(2) ee(1), of out1] ee(2) len1 by simp
  have t1: "take m out1 = take b out @ sequential_scan func v ?L"
    using le ee by (simp add: out1_def)
  have d1: "drop e out1 = drop e out"
    using le ee by (simp add: out1_def)
  show ?case
    using pre left right incoming
    by (simp add: LR sequential_scan_append t1 d1)
qed

lemma doScan_result:
  assumes assoc: "\<And>a b c. func (func a b) c = func a (func b c)"
    and rid: "\<And>a. func a ident = a"
    and sp: "splits t (0, n)" and li: "n \<le> length inp" and lo: "n \<le> length out"
  shows "doScan t out inp ident func conv n
    = Inr (foldl func ident (map conv (take n inp)),
           sequential_scan func ident (map conv (take n inp)) @ drop n out)"
  using final_scan_result [OF assoc rid sp _ li lo, of conv ident]
  by (simp add: doScan_def parallel_scan_def parallel_scan_body_def segment_all)

lemma sequential_scan_last:
  "xs \<noteq> [] \<Longrightarrow> last (sequential_scan f a xs) = foldl f a xs"
proof (induction xs arbitrary: a)
  case Nil
  then show ?case by simp
next
  case (Cons x xs)
  then show ?case by (cases xs) simp_all
qed

lemma nth_middle_last:
  assumes "length A = b" and "length S = e - b" and "b < e"
  shows "(A @ S @ D) ! (e - 1) = last S"
proof -
  from assms have ne: "S \<noteq> []" by auto
  from assms have f1: "\<not> e - 1 < length A" by arith
  from assms have f2: "e - 1 - length A < length S" by arith
  from assms have f3: "e - 1 - length A = length S - 1" by arith
  have "(A @ S @ D) ! (e - 1) = (S @ D) ! (e - 1 - length A)"
    using f1 by (simp only: nth_append if_False)
  also have "\<dots> = S ! (e - 1 - length A)"
    using f2 by (simp only: nth_append if_True)
  also have "\<dots> = last S"
    unfolding f3 using ne by (simp add: last_conv_nth)
  finally show ?thesis .
qed

lemma final_scan_last:
  "splits t (b, e) \<Longrightarrow> b \<le> e \<Longrightarrow> e \<le> length inp \<Longrightarrow> e \<le> length out \<Longrightarrow>
    \<exists>total out'. final_scan t (b, e)
      (\<lambda>is_final r v s. doScan_loop func conv inp is_final (fst r) (snd r) v s)
      (\<lambda>v. ident) (\<lambda>this a. func a this) v out
    = Inr (total, out') \<and> length out' = length out \<and> (b < e \<longrightarrow> total = out' ! (e - 1))"
proof (induction t arbitrary: b e v out)
  case Leaf
  let ?xs = "map conv (segment inp b e)"
  let ?out' = "take b out @ sequential_scan func v ?xs @ drop e out"
  have run: "doScan_loop func conv inp True b e v out = Inr (foldl func v ?xs, ?out')"
    using Leaf by (simp add: doScan_loop_final)
  have len: "length ?out' = length out"
    using Leaf by simp
  have "foldl func v ?xs = ?out' ! (e - 1)" if "b < e"
  proof -
    from that Leaf have ne: "?xs \<noteq> []"
      by (metis length_map segment_length list.size(3) zero_less_diff less_numeral_extra(3))
    have "?out' ! (e - 1) = last (sequential_scan func v ?xs)"
      using that Leaf by (intro nth_middle_last) simp_all
    also have "\<dots> = foldl func v ?xs"
      by (rule sequential_scan_last [OF ne])
    finally show ?thesis by simp
  qed
  with run len show ?case by simp
next
  case (Split m lft rgt)
  from Split.prems have lt: "b < m" "m < e"
    and sl: "splits lft (b, m)" and sr: "splits rgt (m, e)"
    by simp_all
  from lt Split.prems have le: "b \<le> m" "m \<le> e" "m \<le> length inp" "m \<le> length out"
    and ee: "e \<le> length inp" "e \<le> length out"
    by simp_all
  let ?call = "\<lambda>is_final r v s. doScan_loop func conv inp is_final (fst r) (snd r) v s"
  from pre_scan_runs [OF sl le(1) le(3), of func conv ident v out] obtain left where
    pre: "pre_scan lft (b, m) ?call (\<lambda>v. ident) (\<lambda>this a. func a this) v out = Inr (left, out)"
    by blast
  from Split.IH(1) [OF sl le(1) le(3) le(4), of v] obtain t1 out1 where
    l: "final_scan lft (b, m) ?call (\<lambda>v. ident) (\<lambda>this a. func a this) v out = Inr (t1, out1)"
    and len1: "length out1 = length out"
    by blast
  from Split.IH(2) [OF sr le(2) ee(1), of out1 "func v left"] ee(2) len1 obtain t2 out2 where
    r: "final_scan rgt (m, e) ?call (\<lambda>v. ident) (\<lambda>this a. func a this) (func v left) out1
          = Inr (t2, out2)"
    and len2: "length out2 = length out1" and last2: "m < e \<longrightarrow> t2 = out2 ! (e - 1)"
    by auto
  from pre l r len1 len2 last2 lt show ?case by simp
qed

declare DoSerialScan_loop.simps [simp del]

lemma DoSerialScan_loop_result:
  "e \<le> length x \<Longrightarrow> e \<le> length y \<Longrightarrow> i \<le> e \<Longrightarrow>
   DoSerialScan_loop x i e temp y
     = Inr (foldl (+) temp (segment x i e),
            take i y @ sequential_scan (+) temp (segment x i e) @ drop e y)"
proof (induction x i e temp y rule: DoSerialScan_loop.induct)
  case (1 x i n temp y)
  show ?case
  proof (cases "i < n")
    case False
    with "1.prems" have "i = n" by simp
    then show ?thesis by (subst DoSerialScan_loop.simps) simp
  next
    case True
    with "1.prems" have lt: "i < length x" "i < length y" by simp_all
    let ?v = "temp + x ! i"
    have "DoSerialScan_loop x (Suc i) n ?v (y[i := ?v])
        = Inr (foldl (+) ?v (segment x (Suc i) n),
               take (Suc i) (y[i := ?v]) @ sequential_scan (+) ?v (segment x (Suc i) n)
                 @ drop n (y[i := ?v]))"
      using "1.IH" True lt "1.prems" by simp
    moreover have "take (Suc i) (y[i := ?v]) = take i y @ [?v]"
      using lt by (simp add: take_Suc_conv_app_nth)
    moreover have "drop n (y[i := ?v]) = drop n y"
      using True by simp
    ultimately show ?thesis
      using True lt "1.prems" by (subst DoSerialScan_loop.simps) (simp add: segment_Cons)
  qed
qed

lemma DoSerialScan_result:
  "n \<le> length x \<Longrightarrow> n \<le> length y \<Longrightarrow>
   DoSerialScan y x n = Inr (foldl (+) 0 (take n x), sequential_scan (+) 0 (take n x) @ drop n y)"
  by (simp add: DoSerialScan_def DoSerialScan_loop_result segment_all)

lemma foldl_from_first:
  assumes lid: "\<And>a. func ident a = a" and "k < length inp"
  shows "foldl func ident (map conv (take (Suc k) inp))
    = foldl func (conv (inp ! 0)) (map conv (segment inp 1 (Suc k)))"
proof -
  have "take (Suc k) inp = inp ! 0 # segment inp 1 (Suc k)"
    using assms(2) segment_Cons [of 0 "Suc k" inp] by (simp add: segment_all)
  then show ?thesis by (simp add: lid)
qed

section \<open>Facts about the class Body\<close>

text \<open>
  The loops of \<open>Body::operator()\<close> agree with each other, and with the loop of
  \<open>doScan\<close> for addition: \<open>DoParallelScan\<close> is \<open>doScan\<close> with \<open>+\<close> and \<open>0\<close>.
\<close>

declare final_loop.simps [simp del] pre_loop.simps [simp del] tagged_loop.simps [simp del]

lemma tagged_loop_final: "tagged_loop x True i e this y = final_loop x i e this y"
proof (induction x i e this y rule: final_loop.induct)
  case (1 x i e this y)
  show ?case
  proof (cases "i < e \<and> i < length x \<and> i < length y")
    case True
    then show ?thesis
      using "1.IH" by (subst tagged_loop.simps, subst final_loop.simps) simp
  next
    case False
    then show ?thesis
      by (subst tagged_loop.simps, subst final_loop.simps) auto
  qed
qed

lemma tagged_loop_pre: "tagged_loop x False i e this y = pre_loop x i e this y"
proof (induction x i e this y rule: pre_loop.induct)
  case (1 x i e this y)
  show ?case
  proof (cases "i < e \<and> i < length x")
    case True
    then show ?thesis
      using "1.IH" by (subst tagged_loop.simps, subst pre_loop.simps) simp
  next
    case False
    then show ?thesis
      by (subst tagged_loop.simps, subst pre_loop.simps) auto
  qed
qed

lemma Body_one_field: "\<lparr>Body_sum = Body_sum (b :: 'a Body)\<rparr> = b"
  by simp

lemma tagged_loop_doScan_loop:
  "i \<le> e \<Longrightarrow>
   tagged_loop x is_final i e this y =
     (case doScan_loop (+) (\<lambda>a. a) x is_final i e (Body_sum this) y of
        Inl f \<Rightarrow> Inl f
      | Inr (v, y') \<Rightarrow> Inr (\<lparr>Body_sum = v\<rparr>, y'))"
proof (induction x is_final i e this y rule: tagged_loop.induct)
  case (1 x is_final i e this y)
  show ?case
  proof (cases "i < e")
    case False
    with "1.prems" have "i = e" by simp
    then show ?thesis
      by (subst tagged_loop.simps, subst doScan_loop.simps) simp
  next
    case True
    then have ne: "i \<noteq> e" and le: "Suc i \<le> e" by simp_all
    show ?thesis
    proof (cases "i < length x")
      case False
      with True ne show ?thesis
        by (subst tagged_loop.simps, subst doScan_loop.simps) simp
    next
      case inx: True
      show ?thesis
      proof (cases is_final)
        case fin: True
        show ?thesis
        proof (cases "i < length y")
          case True
          with \<open>i < e\<close> ne inx fin "1.IH"(1) [OF \<open>i < e\<close> inx fin True le] show ?thesis
            by (subst tagged_loop.simps, subst doScan_loop.simps) simp
        next
          case False
          with \<open>i < e\<close> ne inx fin show ?thesis
            by (subst tagged_loop.simps, subst doScan_loop.simps) simp
        qed
      next
        case notfin: False
        with True ne inx "1.IH"(2) [OF True inx notfin le] show ?thesis
          by (subst tagged_loop.simps, subst doScan_loop.simps) simp
      qed
    qed
  qed
qed

lemma Body_call_doScan_loop:
  "b \<le> e \<Longrightarrow>
   Body_call x is_final (b, e) this y =
     (case doScan_loop (+) (\<lambda>a. a) x is_final b e (Body_sum this) y of
        Inl f \<Rightarrow> Inl f
      | Inr (v, y') \<Rightarrow> Inr (\<lparr>Body_sum = v\<rparr>, y'))"
  by (simp add: Body_call_def USE_OPTIMISED_LOOP_def Body_call_plain_def tagged_loop_doScan_loop)

lemma reverse_join_sums:
  "reverse_join \<lparr>Body_sum = r\<rparr> \<lparr>Body_sum = l\<rparr> = \<lparr>Body_sum = l + r\<rparr>"
  by (simp add: reverse_join_def)

lemma reverse_join_incoming:
  "Body_sum (reverse_join \<lparr>Body_sum = l\<rparr> body) = Body_sum body + l"
  by (simp add: reverse_join_def)

lemma pre_scan_Body:
  "splits t (b, e) \<Longrightarrow> b \<le> e \<Longrightarrow>
   pre_scan t (b, e) (Body_call x) Body_split reverse_join body y =
     (case pre_scan t (b, e)
             (\<lambda>is_final r v s. doScan_loop (+) (\<lambda>a. a) x is_final (fst r) (snd r) v s)
             (\<lambda>v. 0) (\<lambda>this a. a + this) (Body_sum body) y of
        Inl f \<Rightarrow> Inl f
      | Inr (v, y') \<Rightarrow> Inr (\<lparr>Body_sum = v\<rparr>, y'))"
proof (induction t arbitrary: b e body y)
  case Leaf
  then show ?case by (simp add: Body_call_doScan_loop Body_split_def)
next
  case (Split m lft rgt)
  from Split.prems have le: "b \<le> m" "m \<le> e"
    and sl: "splits lft (b, m)" and sr: "splits rgt (m, e)"
    by simp_all
  show ?case
    by (simp add: Split.IH(1) [OF sl le(1)] Split.IH(2) [OF sr le(2)] reverse_join_sums
        split: sum.splits prod.splits)
qed

lemma final_scan_Body:
  "splits t (b, e) \<Longrightarrow> b \<le> e \<Longrightarrow>
   final_scan t (b, e) (Body_call x) Body_split reverse_join body y =
     (case final_scan t (b, e)
             (\<lambda>is_final r v s. doScan_loop (+) (\<lambda>a. a) x is_final (fst r) (snd r) v s)
             (\<lambda>v. 0) (\<lambda>this a. a + this) (Body_sum body) y of
        Inl f \<Rightarrow> Inl f
      | Inr (v, y') \<Rightarrow> Inr (\<lparr>Body_sum = v\<rparr>, y'))"
proof (induction t arbitrary: b e body y)
  case Leaf
  then show ?case by (simp add: Body_call_doScan_loop)
next
  case (Split m lft rgt)
  from Split.prems have le: "b \<le> m" "m \<le> e"
    and sl: "splits lft (b, m)" and sr: "splits rgt (m, e)"
    by simp_all
  show ?case
    by (simp add: pre_scan_Body [OF sl le(1)] Split.IH(1) [OF sl le(1)] Split.IH(2) [OF sr le(2)]
        reverse_join_incoming split: sum.splits prod.splits)
qed

lemma DoParallelScan_doScan:
  "splits t (0, n) \<Longrightarrow> DoParallelScan t y x n = doScan t y x 0 (+) id n"
  by (simp add: DoParallelScan_def doScan_def parallel_scan_def parallel_scan_body_def
      final_scan_Body assign_def get_sum_def id_def split: sum.splits prod.splits)

section \<open>Facts about the scatter pass\<close>

text \<open>
  \<open>doFilter\<close> is the fold of \<open>scatter_store\<close> over the indices in the order of the
  schedule, when no access is out of bounds.
\<close>

declare doFilter_loop.simps [simp del]

lemma visit_order_mset:
  "schedules sched (0, n) \<Longrightarrow> mset (visit_order sched (0, n)) = mset [0..<n]"
  unfolding visit_order_def by (rule schedule_indices)

lemma visit_order_set:
  "schedules sched (0, n) \<Longrightarrow> set (visit_order sched (0, n)) = {0..<n}"
  using visit_order_mset [of sched n] by (metis mset_eq_setD set_upt)

lemma scatter_store_length [simp]:
  "length (scatter_store inp bolMatch ixMatch i out) = length out"
  by (simp add: scatter_store_def)

lemma fold_scatter_length [simp]:
  "length (fold (scatter_store inp bolMatch ixMatch) ks out) = length out"
  by (induction ks arbitrary: out) simp_all

lemma doFilter_loop_fold:
  "e \<le> length inp \<Longrightarrow> e \<le> length bolMatch \<Longrightarrow> e \<le> length ixMatch \<Longrightarrow>
   \<forall>k<e. bolMatch ! k \<longrightarrow> unat (ixMatch ! k - 1) < length out \<Longrightarrow>
   doFilter_loop inp bolMatch ixMatch i e out
     = Inr (fold (scatter_store inp bolMatch ixMatch) [i..<e] out)"
proof (induction inp bolMatch ixMatch i e out rule: doFilter_loop.induct)
  case (1 inp bolMatch ixMatch i e out)
  show ?case
  proof (cases "i < e")
    case False
    then show ?thesis by (subst doFilter_loop.simps) simp
  next
    case True
    with "1.prems" have inb: "i < length bolMatch" "i < length ixMatch" "i < length inp"
      by simp_all
    have up: "[i..<e] = i # [Suc i..<e]"
      using True by (simp add: upt_conv_Cons)
    show ?thesis
    proof (cases "bolMatch ! i")
      case flagged: True
      with True "1.prems" have dest: "unat (ixMatch ! i - 1) < length out" by simp
      have "doFilter_loop inp bolMatch ixMatch (Suc i) e (out[unat (ixMatch ! i - 1) := inp ! i])
          = Inr (fold (scatter_store inp bolMatch ixMatch) [Suc i..<e]
                   (out[unat (ixMatch ! i - 1) := inp ! i]))"
        using "1.IH"(1) [OF True inb(1) flagged] inb dest "1.prems" by simp
      then show ?thesis
        using True inb flagged dest
        by (subst doFilter_loop.simps) (simp add: up scatter_store_def)
    next
      case False
      have "doFilter_loop inp bolMatch ixMatch (Suc i) e out
          = Inr (fold (scatter_store inp bolMatch ixMatch) [Suc i..<e] out)"
        using "1.IH"(2) [OF True inb(1) False] "1.prems" by simp
      then show ?thesis
        using True inb False
        by (subst doFilter_loop.simps) (simp add: up scatter_store_def)
    qed
  qed
qed

lemma doFilter_result:
  assumes sch: "schedules sched (0, n)"
    and li: "n \<le> length inp" and lb: "n \<le> length bolMatch" and lx: "n \<le> length ixMatch"
    and dest: "\<forall>i<n. bolMatch ! i \<longrightarrow> unat (ixMatch ! i - 1) < length out"
  shows "doFilter sched out inp bolMatch ixMatch n
    = Inr (fold (scatter_store inp bolMatch ixMatch) (visit_order sched (0, n)) out)"
proof -
  let ?rs = "map (\<lambda>k. leaves (fst sched) (0, n) ! k) (snd sched)"
  let ?step = "scatter_store inp bolMatch ixMatch"
  have "run_leaves ?rs (\<lambda>r out. doFilter_loop inp bolMatch ixMatch (fst r) (snd r) out) out
      = Inr (fold ?step (concat (map indices ?rs)) out)"
  proof (rule run_leaves_fold [where P = "\<lambda>s. length s = length out"])
    fix r and s :: "'a list"
    assume r: "r \<in> set ?rs" and s: "length s = length out"
    from schedule_leaf_bounds [OF sch r] have le: "snd r \<le> n" by simp
    have "doFilter_loop inp bolMatch ixMatch (fst r) (snd r) s = Inr (fold ?step [fst r..<snd r] s)"
      using le li lb lx dest s by (intro doFilter_loop_fold) simp_all
    then show "doFilter_loop inp bolMatch ixMatch (fst r) (snd r) s = Inr (fold ?step (indices r) s)"
      by (cases r) simp
  qed simp_all
  then show ?thesis by (simp add: doFilter_def parallel_for_def visit_order_def)
qed

lemma fold_scatter_unchanged:
  "\<forall>k\<in>set ks. bolMatch ! k \<longrightarrow> unat (ixMatch ! k - 1) \<noteq> j \<Longrightarrow>
   fold (scatter_store inp bolMatch ixMatch) ks out ! j = out ! j"
  by (induction ks arbitrary: out) (simp_all add: scatter_store_def)

lemma fold_scatter_written:
  "i \<in> set ks \<Longrightarrow> bolMatch ! i \<Longrightarrow> unat (ixMatch ! i - 1) < length out \<Longrightarrow>
   \<forall>k\<in>set ks. bolMatch ! k \<longrightarrow> k \<noteq> i \<longrightarrow> unat (ixMatch ! k - 1) \<noteq> unat (ixMatch ! i - 1) \<Longrightarrow>
   fold (scatter_store inp bolMatch ixMatch) ks out ! unat (ixMatch ! i - 1) = inp ! i"
proof (induction ks arbitrary: out)
  case Nil
  then show ?case by simp
next
  case (Cons k ks)
  let ?d = "unat (ixMatch ! i - 1)"
  let ?out1 = "scatter_store inp bolMatch ixMatch k out"
  have len: "?d < length ?out1"
    using Cons.prems(3) by simp
  have others: "\<forall>k\<in>set ks. bolMatch ! k \<longrightarrow> k \<noteq> i \<longrightarrow> unat (ixMatch ! k - 1) \<noteq> ?d"
    using Cons.prems(4) by simp
  show ?case
  proof (cases "i \<in> set ks")
    case True
    from Cons.IH [OF True Cons.prems(2) len others] show ?thesis by simp
  next
    case False
    with Cons.prems(1) have ik: "k = i" by simp
    from False others have "\<forall>k\<in>set ks. bolMatch ! k \<longrightarrow> unat (ixMatch ! k - 1) \<noteq> ?d"
      by auto
    then have "fold (scatter_store inp bolMatch ixMatch) ks ?out1 ! ?d = ?out1 ! ?d"
      by (rule fold_scatter_unchanged)
    also have "\<dots> = inp ! i"
      using ik Cons.prems(2,3) by (simp add: scatter_store_def)
    finally show ?thesis by simp
  qed
qed

section \<open>Facts about the map into a vector<bool>\<close>

text \<open>
  A store to the element \<open>i\<close> that follows its load at once changes the element
  \<open>i\<close> only. Under every interleaving the workers stay within their leaves, so the
  map returns, with an output of the same size. When the leaves run one after the
  other, the output holds \<open>func\<close> of every element.
\<close>

declare doMap_bits_loop.simps [simp del]

lemma vb_store_size [simp]: "vb_size (vb_store i b x v) = vb_size v"
  by (simp add: vb_store_def)

lemma vb_store_words_length [simp]:
  "length (vb_words (vb_store i b x v)) = length (vb_words v)"
  by (simp add: vb_store_def)

lemma vb_list_length [simp]: "length (vb_list v) = vb_size v"
  by (simp add: vb_list_def)

lemma vb_list_nth: "j < vb_size v \<Longrightarrow> vb_list v ! j = vb_get v j"
  by (simp add: vb_list_def)

lemma same_bit_position: "j div 64 = i div 64 \<Longrightarrow> j mod 64 = i mod 64 \<Longrightarrow> j = (i :: nat)"
  by (metis div_mult_mod_eq)

lemma vb_get_store:
  assumes "i div 64 < length (vb_words v)"
  shows "vb_get (vb_store i b (vb_load i v) v) j = (if j = i then b else vb_get v j)"
proof (cases "j div 64 = i div 64")
  case False
  then have "j \<noteq> i" by auto
  with False show ?thesis
    by (simp add: vb_get_def vb_store_def)
next
  case True
  show ?thesis
  proof (cases "j mod 64 = i mod 64")
    case same: True
    with True have "j = i" by (rule same_bit_position)
    then show ?thesis
      using assms
      by (simp add: vb_get_def vb_store_def vb_load_def bit_set_bit_iff bit_unset_bit_iff
          possible_bit_word)
  next
    case False
    then have "j \<noteq> i" by auto
    with False True show ?thesis
      using assms
      by (auto simp: vb_get_def vb_store_def vb_load_def bit_set_bit_iff bit_unset_bit_iff)
  qed
qed

lemma vb_list_store:
  assumes "i < vb_size v" and "vb_size v \<le> 64 * length (vb_words v)"
  shows "vb_list (vb_store i b (vb_load i v) v) = (vb_list v)[i := b]"
proof (rule nth_equalityI)
  show "length (vb_list (vb_store i b (vb_load i v) v)) = length ((vb_list v)[i := b])"
    by simp
next
  fix j assume "j < length (vb_list (vb_store i b (vb_load i v) v))"
  then have j: "j < vb_size v" by simp
  from assms have "i div 64 < length (vb_words v)" by auto
  then show "vb_list (vb_store i b (vb_load i v) v) ! j = (vb_list v)[i := b] ! j"
    using j assms(1) by (simp add: vb_list_nth vb_get_store nth_list_update)
qed

lemma vector_bool_n_list: "vb_list (vector_bool_n n) = replicate n False"
proof (rule nth_equalityI)
  show "length (vb_list (vector_bool_n n)) = length (replicate n False)"
    by (simp add: vector_bool_n_def)
next
  fix j assume "j < length (vb_list (vector_bool_n n))"
  then have j: "j < n" by (simp add: vector_bool_n_def)
  then have "j div 64 < (n + 63) div 64" by auto
  with j show "vb_list (vector_bool_n n) ! j = replicate n False ! j"
    by (simp add: vb_list_def vb_get_def vector_bool_n_def)
qed

lemma vector_bool_n_room:
  "vb_size (vector_bool_n n) = n \<and> vb_size (vector_bool_n n) \<le> 64 * length (vb_words (vector_bool_n n))"
  by (auto simp: vector_bool_n_def)

lemma doMap_bits_loop_runs:
  "i \<le> e \<Longrightarrow> e \<le> length inp \<Longrightarrow> e \<le> vb_size out \<Longrightarrow>
   \<exists>out'. doMap_bits_loop func inp i e out = Inr out' \<and> vb_size out' = vb_size out \<and>
     length (vb_words out') = length (vb_words out)"
proof (induction func inp i e out rule: doMap_bits_loop.induct)
  case (1 func inp i e out)
  show ?case
  proof (cases "i = e")
    case True
    then show ?thesis by (subst doMap_bits_loop.simps) simp
  next
    case False
    with "1.prems" have lt: "i < e" "i < length inp" "i < vb_size out" by simp_all
    from "1.IH" [OF False] lt "1.prems" obtain out' where
      "doMap_bits_loop func inp (Suc i) e (vb_store i (func (inp ! i)) (vb_load i out) out) = Inr out'"
      "vb_size out' = vb_size out" "length (vb_words out') = length (vb_words out)"
      by auto
    then show ?thesis
      using False lt by (subst doMap_bits_loop.simps) simp
  qed
qed

lemma doMap_bits_step_runs:
  assumes "worker_ok n w" and "n \<le> length inp" and "n \<le> vb_size out"
  shows "\<exists>w' out'. doMap_bits_step func inp w out = Inr (w', out') \<and> worker_ok n w' \<and>
     vb_size out' = vb_size out \<and> length (vb_words out') = length (vb_words out)"
  using assms by (cases w) auto

lemma doMap_bits_resume_runs:
  assumes "worker_ok n w" and "n \<le> length inp" and "n \<le> vb_size out"
  shows "\<exists>out'. doMap_bits_resume func inp w out = Inr out' \<and> vb_size out' = vb_size out \<and>
     length (vb_words out') = length (vb_words out)"
proof (cases w)
  case (At_loop i e)
  with assms doMap_bits_loop_runs [of i e inp out func] show ?thesis by simp
next
  case (Loaded i e x)
  with assms doMap_bits_loop_runs [of "Suc i" e inp "vb_store i (func (inp ! i)) x out" func]
  show ?thesis by simp
qed

lemma run_interleaved_runs:
  assumes "n \<le> length inp"
  shows "list_all (worker_ok n) ws \<Longrightarrow> n \<le> vb_size out \<Longrightarrow>
    \<exists>ws' out'. run_interleaved ks (doMap_bits_step func inp) ws out = Inr (ws', out') \<and>
      list_all (worker_ok n) ws' \<and> vb_size out' = vb_size out \<and>
      length (vb_words out') = length (vb_words out)"
proof (induction ks arbitrary: ws out)
  case Nil
  then show ?case by simp
next
  case (Cons k ks)
  show ?case
  proof (cases "k < length ws")
    case False
    with Cons.IH [OF Cons.prems] show ?thesis by simp
  next
    case True
    with Cons.prems(1) have "worker_ok n (ws ! k)"
      by (simp add: list_all_length)
    from doMap_bits_step_runs [OF this assms Cons.prems(2), of func] obtain w' out1 where
      st: "doMap_bits_step func inp (ws ! k) out = Inr (w', out1)" and ok: "worker_ok n w'"
      and sz: "vb_size out1 = vb_size out" and ln: "length (vb_words out1) = length (vb_words out)"
      by blast
    have "list_all (worker_ok n) (ws[k := w'])"
      unfolding list_all_length
    proof (intro allI impI)
      fix j assume "j < length (ws[k := w'])"
      then have "j < length ws" by simp
      with Cons.prems(1) have "worker_ok n (ws ! j)" by (simp add: list_all_length)
      with ok \<open>j < length ws\<close> show "worker_ok n (ws[k := w'] ! j)"
        by (cases "j = k") simp_all
    qed
    from Cons.IH [OF this, of out1] Cons.prems(2) sz ln st True show ?thesis by simp
  qed
qed

lemma run_to_end_runs:
  assumes "n \<le> length inp"
  shows "list_all (worker_ok n) ws \<Longrightarrow> n \<le> vb_size out \<Longrightarrow>
    \<exists>out'. run_to_end ws (doMap_bits_resume func inp) out = Inr out' \<and>
      vb_size out' = vb_size out \<and> length (vb_words out') = length (vb_words out)"
proof (induction ws arbitrary: out)
  case Nil
  then show ?case by simp
next
  case (Cons w ws)
  from Cons.prems have w: "worker_ok n w" and ws: "list_all (worker_ok n) ws" by simp_all
  from doMap_bits_resume_runs [OF w assms Cons.prems(2), of func] obtain out1 where
    r: "doMap_bits_resume func inp w out = Inr out1" and sz: "vb_size out1 = vb_size out"
    and ln: "length (vb_words out1) = length (vb_words out)"
    by blast
  from Cons.IH [OF ws, of out1] Cons.prems(2) sz ln r show ?case by simp
qed

lemma start_workers_ok:
  assumes "splits t (0, n)"
  shows "list_all (worker_ok n) (map (\<lambda>r. At_loop (fst r) (snd r)) (leaves t (0, n)))"
proof -
  have "worker_ok n (At_loop (fst q) (snd q))" if "q \<in> set (leaves t (0, n))" for q
    using leaves_bounds [OF assms _ that] by simp
  then show ?thesis by (simp add: list_all_iff)
qed

lemma doMap_vector_bool_runs:
  assumes "splits (fst il) (0, n)" and "n \<le> length inp" and "n \<le> vb_size out"
  shows "\<exists>out'. doMap_vector_bool il out inp func n = Inr out' \<and> vb_size out' = vb_size out"
proof -
  let ?ws = "map (\<lambda>r. At_loop (fst r) (snd r)) (leaves (fst il) (0, n))"
  from run_interleaved_runs [OF assms(2) start_workers_ok [OF assms(1)] assms(3), of "snd il" func]
  obtain ws' out1 where
    r1: "run_interleaved (snd il) (doMap_bits_step func inp) ?ws out = Inr (ws', out1)"
    and ok: "list_all (worker_ok n) ws'" and sz: "vb_size out1 = vb_size out"
    by blast
  from run_to_end_runs [OF assms(2) ok, of out1 func] assms(3) sz obtain out' where
    "run_to_end ws' (doMap_bits_resume func inp) out1 = Inr out'" "vb_size out' = vb_size out"
    by auto
  with r1 show ?thesis
    by (simp add: doMap_vector_bool_def parallel_for_workers_def)
qed

lemma doMap_bits_loop_list:
  "i \<le> e \<Longrightarrow> e \<le> length inp \<Longrightarrow> e \<le> vb_size out \<Longrightarrow>
   vb_size out \<le> 64 * length (vb_words out) \<Longrightarrow>
   \<exists>out'. doMap_bits_loop func inp i e out = Inr out' \<and> vb_size out' = vb_size out \<and>
     length (vb_words out') = length (vb_words out) \<and>
     vb_list out' = fold (\<lambda>k l. l[k := func (inp ! k)]) [i..<e] (vb_list out)"
proof (induction func inp i e out rule: doMap_bits_loop.induct)
  case (1 func inp i e out)
  show ?case
  proof (cases "i = e")
    case True
    then show ?thesis by (subst doMap_bits_loop.simps) simp
  next
    case False
    with "1.prems" have lt: "i < e" "i < length inp" "i < vb_size out" by simp_all
    let ?out1 = "vb_store i (func (inp ! i)) (vb_load i out) out"
    have l1: "vb_list ?out1 = (vb_list out)[i := func (inp ! i)]"
      by (rule vb_list_store [OF lt(3) "1.prems"(4)])
    from "1.IH" [OF False] lt "1.prems" obtain out' where
      r: "doMap_bits_loop func inp (Suc i) e ?out1 = Inr out'"
      and sz: "vb_size out' = vb_size out" "length (vb_words out') = length (vb_words out)"
      and l: "vb_list out' = fold (\<lambda>k l. l[k := func (inp ! k)]) [Suc i..<e] (vb_list ?out1)"
      by auto
    have up: "[i..<e] = i # [Suc i..<e]"
      using lt by (simp add: upt_conv_Cons)
    from r sz l show ?thesis
      using False lt by (subst doMap_bits_loop.simps) (simp add: l1 up)
  qed
qed

lemma run_to_end_list:
  assumes "n \<le> length inp"
  shows "\<forall>q\<in>set rs. fst q \<le> snd q \<and> snd q \<le> n \<Longrightarrow> n \<le> vb_size out \<Longrightarrow>
    vb_size out \<le> 64 * length (vb_words out) \<Longrightarrow>
    \<exists>out'. run_to_end (map (\<lambda>r. At_loop (fst r) (snd r)) rs) (doMap_bits_resume func inp) out
        = Inr out' \<and> vb_size out' = vb_size out \<and>
      vb_list out' = fold (\<lambda>k l. l[k := func (inp ! k)]) (concat (map indices rs)) (vb_list out)"
proof (induction rs arbitrary: out)
  case Nil
  then show ?case by simp
next
  case (Cons r rs)
  obtain b e where r: "r = (b, e)" by (cases r)
  with Cons.prems(1) have be: "b \<le> e" "e \<le> n" by simp_all
  from doMap_bits_loop_list [OF be(1), of inp out func] be assms Cons.prems obtain out1 where
    l: "doMap_bits_loop func inp b e out = Inr out1" and sz: "vb_size out1 = vb_size out"
    and ln: "length (vb_words out1) = length (vb_words out)"
    and li: "vb_list out1 = fold (\<lambda>k l. l[k := func (inp ! k)]) [b..<e] (vb_list out)"
    by auto
  from Cons.IH [of out1] Cons.prems sz ln obtain out' where
    "run_to_end (map (\<lambda>r. At_loop (fst r) (snd r)) rs) (doMap_bits_resume func inp) out1 = Inr out'"
    "vb_size out' = vb_size out"
    "vb_list out' = fold (\<lambda>k l. l[k := func (inp ! k)]) (concat (map indices rs)) (vb_list out1)"
    by auto
  with l li show ?case by (simp add: r)
qed

lemma doMap_vector_bool_in_turn:
  assumes sp: "splits t (0, n)" and li: "n \<le> length inp" and lo: "n \<le> vb_size out"
    and room: "vb_size out \<le> 64 * length (vb_words out)"
  shows "\<exists>out'. doMap_vector_bool (t, []) out inp func n = Inr out' \<and> vb_size out' = vb_size out \<and>
    vb_list out' = map func (take n inp) @ drop n (vb_list out)"
proof -
  have "\<forall>q\<in>set (leaves t (0, n)). fst q \<le> snd q \<and> snd q \<le> n"
    using leaves_bounds [OF sp] by simp
  from run_to_end_list [OF li this lo room, of func] obtain out' where
    r: "run_to_end (map (\<lambda>r. At_loop (fst r) (snd r)) (leaves t (0, n)))
          (doMap_bits_resume func inp) out = Inr out'"
    and sz: "vb_size out' = vb_size out"
    and l: "vb_list out' = fold (\<lambda>k l. l[k := func (inp ! k)])
          (concat (map indices (leaves t (0, n)))) (vb_list out)"
    by blast
  have "vb_list out' = map func (take n inp) @ drop n (vb_list out)"
  proof (rule nth_equalityI)
    show "length (vb_list out') = length (map func (take n inp) @ drop n (vb_list out))"
      using sz li lo by simp
  next
    fix j assume "j < length (vb_list out')"
    then have j: "j < length (vb_list out)" using sz by simp
    have "vb_list out' ! j = (if j < n then func (inp ! j) else vb_list out ! j)"
      using fold_update_nth [OF j, of "\<lambda>k. func (inp ! k)" "[0..<n]"]
      by (simp add: l leaves_indices [OF sp])
    also have "\<dots> = (map func (take n inp) @ drop n (vb_list out)) ! j"
      using li lo j by (simp add: nth_append)
    finally show "vb_list out' ! j = (map func (take n inp) @ drop n (vb_list out)) ! j" .
  qed
  with r sz show ?thesis
    by (simp add: doMap_vector_bool_def parallel_for_workers_def)
qed

section \<open>Facts about the compaction\<close>

text \<open>
  The running count of the flagged elements: at a flagged index \<open>i\<close> the inclusive
  count minus one is the number of flagged elements before \<open>i\<close>, which is the
  position of \<open>xs ! i\<close> in \<open>filter P xs\<close>. The counts do not wrap around, as the
  length of the input fits \<open>size_t\<close>.
\<close>

lemma count_step:
  "i < length xs \<Longrightarrow> P (xs ! i) \<Longrightarrow>
   length (filter P (take (Suc i) xs)) = Suc (length (filter P (take i xs)))"
  by (simp add: take_Suc_conv_app_nth)

lemma count_mono:
  "k \<le> i \<Longrightarrow> length (filter P (take k xs)) \<le> length (filter P (take i xs))"
proof -
  assume "k \<le> i"
  then have "take i xs = take k xs @ take (i - k) (drop k xs)"
    by (metis le_add_diff_inverse take_add)
  then show ?thesis by simp
qed

lemma count_le: "length (filter P (take k xs)) \<le> length xs"
  by (metis length_filter_le length_take le_trans min.cobounded1)

lemma count_injective:
  assumes "i < length xs" "k < length xs" "P (xs ! i)" "P (xs ! k)" "k \<noteq> i"
  shows "length (filter P (take k xs)) \<noteq> length (filter P (take i xs))"
proof (cases "k < i")
  case True
  then have "length (filter P (take (Suc k) xs)) \<le> length (filter P (take i xs))"
    by (intro count_mono) simp
  with assms show ?thesis by (simp add: count_step)
next
  case False
  with assms have "i < k" by simp
  then have "length (filter P (take (Suc i) xs)) \<le> length (filter P (take k xs))"
    by (intro count_mono) simp
  with assms show ?thesis by (simp add: count_step)
qed

lemma filter_nth_count:
  assumes "i < length xs" "P (xs ! i)"
  shows "filter P xs ! length (filter P (take i xs)) = xs ! i"
proof -
  have "xs = take i xs @ xs ! i # drop (Suc i) xs"
    using assms(1) by (simp add: id_take_nth_drop [symmetric])
  then have "filter P xs = filter P (take i xs) @ xs ! i # filter P (drop (Suc i) xs)"
    using assms(2) by (metis filter.simps(2) filter_append)
  then show ?thesis by (simp add: nth_append)
qed

lemma filter_nth_source:
  "j < length (filter P xs) \<Longrightarrow>
   \<exists>i<length xs. P (xs ! i) \<and> length (filter P (take i xs)) = j"
proof (induction xs arbitrary: j rule: rev_induct)
  case Nil
  then show ?case by simp
next
  case (snoc x xs)
  show ?case
  proof (cases "j < length (filter P xs)")
    case True
    from snoc.IH [OF True] obtain i where "i < length xs" "P (xs ! i)"
      "length (filter P (take i xs)) = j" by blast
    then show ?thesis
      by (intro exI [of _ i]) (simp add: nth_append)
  next
    case False
    with snoc.prems have "P x" and "j = length (filter P xs)"
      by (auto split: if_splits)
    then show ?thesis
      by (intro exI [of _ "length xs"]) simp
  qed
qed

lemma running_count:
  "foldl scanFunc a (map of_bool bs) = a + of_nat (length (filter (\<lambda>b. b) bs))"
  by (induction bs arbitrary: a) (simp_all add: scanFunc_def)

lemma running_count_pred:
  "foldl scanFunc 0 (map of_bool (map P xs)) = of_nat (length (filter P xs))"
proof -
  have "length (filter (\<lambda>b. b) (map P xs)) = length (filter P xs)"
    by (simp add: filter_map comp_def)
  moreover have "foldl scanFunc 0 (map of_bool (map P xs))
      = 0 + of_nat (length (filter (\<lambda>b. b) (map P xs)))"
    by (rule running_count)
  ultimately show ?thesis by (simp only: add_0_left)
qed

lemma unat_count:
  "(k :: nat) < 2 ^ 64 \<Longrightarrow> unat (of_nat k :: size_t) = k"
  by (simp add: unat_of_nat)

lemma scanFunc_assoc: "scanFunc (scanFunc a b) c = scanFunc a (scanFunc b c)"
  by (simp add: scanFunc_def add.assoc)

lemma scanFunc_zero: "scanFunc a 0 = a"
  by (simp add: scanFunc_def)

lemma vecFilter_scan:
  assumes sp: "splits ts (0, length xs)"
  shows "doScan ts (replicate (length xs) 0) (map P xs) 0 scanFunc of_bool (length xs)
    = Inr (of_nat (length (filter P xs)),
           map (\<lambda>i. of_nat (length (filter P (take (Suc i) xs)))) [0..<length xs])"
proof -
  let ?n = "length xs"
  let ?ws = "map of_bool (map P xs) :: size_t list"
  have "doScan ts (replicate ?n 0) (map P xs) 0 scanFunc of_bool ?n
      = Inr (foldl scanFunc 0 (map of_bool (take ?n (map P xs))),
             sequential_scan scanFunc 0 (map of_bool (take ?n (map P xs)))
               @ drop ?n (replicate ?n 0))"
    by (rule doScan_result [OF scanFunc_assoc scanFunc_zero sp]) simp_all
  moreover have "take ?n (map P xs) = map P xs" and "drop ?n (replicate ?n (0 :: size_t)) = []"
    by simp_all
  ultimately have run: "doScan ts (replicate ?n 0) (map P xs) 0 scanFunc of_bool ?n
      = Inr (foldl scanFunc 0 ?ws, sequential_scan scanFunc 0 ?ws)"
    by (simp only: append_Nil2)
  have tot: "foldl scanFunc 0 ?ws = of_nat (length (filter P xs))"
    by (rule running_count_pred)
  have "sequential_scan scanFunc 0 ?ws
      = map (\<lambda>i. of_nat (length (filter P (take (Suc i) xs)))) [0..<?n]"
  proof (rule nth_equalityI)
    show "length (sequential_scan scanFunc 0 ?ws)
        = length (map (\<lambda>i. of_nat (length (filter P (take (Suc i) xs))) :: size_t) [0..<?n])"
      by simp
  next
    fix i assume "i < length (sequential_scan scanFunc 0 ?ws)"
    then have i: "i < ?n" by simp
    then have "sequential_scan scanFunc 0 ?ws ! i = foldl scanFunc 0 (take (Suc i) ?ws)"
      by (simp add: sequential_scan_nth)
    also have "take (Suc i) ?ws = map of_bool (map P (take (Suc i) xs))"
      by (simp add: take_map)
    also have "foldl scanFunc 0 (map of_bool (map P (take (Suc i) xs)))
        = of_nat (length (filter P (take (Suc i) xs)))"
      by (rule running_count_pred)
    finally show "sequential_scan scanFunc 0 ?ws ! i
        = map (\<lambda>i. of_nat (length (filter P (take (Suc i) xs)))) [0..<?n] ! i"
      using i by simp
  qed
  with run tot show ?thesis by (simp only:)
qed

lemma scan_destination:
  assumes "i < length xs" "P (xs ! i)" "length xs < 2 ^ 64"
  shows "unat (of_nat (length (filter P (take (Suc i) xs))) - 1 :: size_t)
    = length (filter P (take i xs))"
proof -
  have "length (filter P (take i xs)) < 2 ^ 64"
    using count_le [of P i xs] assms(3) by simp
  then have "unat (of_nat (length (filter P (take i xs))) :: size_t) = length (filter P (take i xs))"
    by (rule unat_count)
  then show ?thesis using assms(1,2) by (simp add: count_step)
qed

section \<open>Facts about the compaction of flagged elements\<close>

text \<open>
  The scan and the scatter pass of \<open>vecFilter\<close> select the elements whose flag in
  \<open>bolMatch\<close> is set, whatever the flags are: \<open>vecFilter\<close> returns the elements that
  the map step has flagged, in their order.
\<close>

lemma flags_count:
  "length xs = length bs \<Longrightarrow>
   length (filter snd (zip xs bs)) = length (filter (\<lambda>b. b) bs)"
  by (induction xs bs rule: list_induct2) simp_all

lemma flags_count_take:
  assumes "length xs = length bs"
  shows "length (filter snd (take i (zip xs bs))) = length (filter (\<lambda>b. b) (take i bs))"
proof -
  have "take i (zip xs bs) = zip (take i xs) (take i bs)"
    by (simp add: take_zip)
  moreover have "length (take i xs) = length (take i bs)"
    using assms by simp
  ultimately show ?thesis by (simp add: flags_count)
qed

lemma flags_scan:
  assumes "splits ts (0, length bs)"
  shows "doScan ts (replicate (length bs) 0) bs 0 scanFunc of_bool (length bs)
    = Inr (of_nat (length (filter (\<lambda>b. b) bs)),
           map (\<lambda>i. of_nat (length (filter (\<lambda>b. b) (take (Suc i) bs)))) [0..<length bs])"
  using vecFilter_scan [OF assms, of "\<lambda>b. b"] by simp

lemma flags_compaction_fold:
  assumes ks: "set ks = {0..<length bs}" and small: "length bs < 2 ^ 64"
    and len: "length xs = length bs"
  shows "fold (scatter_store xs bs
            (map (\<lambda>i. of_nat (length (filter (\<lambda>b. b) (take (Suc i) bs)))) [0..<length bs]))
           ks (replicate (length (filter (\<lambda>b. b) bs)) T_init)
    = map fst (filter snd (zip xs bs))"
proof (rule nth_equalityI)
  let ?ix = "map (\<lambda>i. of_nat (length (filter (\<lambda>b. b) (take (Suc i) bs))) :: size_t) [0..<length bs]"
  let ?out = "replicate (length (filter (\<lambda>b. b) bs)) T_init"
  let ?res = "fold (scatter_store xs bs ?ix) ks ?out"
  show "length ?res = length (map fst (filter snd (zip xs bs)))"
    by (simp add: flags_count [OF len])
  fix j assume "j < length ?res"
  then have j: "j < length (filter (\<lambda>b. b) bs)" by simp
  from filter_nth_source [OF j] obtain i where i: "i < length bs" and p: "bs ! i"
    and c: "length (filter (\<lambda>b. b) (take i bs)) = j"
    by blast
  have dest: "unat (?ix ! k - 1) = length (filter (\<lambda>b. b) (take k bs))"
    if "k < length bs" "bs ! k" for k
    using that small scan_destination [where xs = bs and P = "\<lambda>b. b" and i = k] by simp
  have "?res ! unat (?ix ! i - 1) = xs ! i"
  proof (rule fold_scatter_written)
    show "i \<in> set ks" using ks i by simp
    show "bs ! i" by (rule p)
    show "unat (?ix ! i - 1) < length ?out" using dest [OF i p] c j by simp
    show "\<forall>k\<in>set ks. bs ! k \<longrightarrow> k \<noteq> i \<longrightarrow> unat (?ix ! k - 1) \<noteq> unat (?ix ! i - 1)"
    proof (intro ballI impI)
      fix k assume "k \<in> set ks" "bs ! k" "k \<noteq> i"
      with ks have k: "k < length bs" "bs ! k" by simp_all
      from count_injective [where xs = bs and P = "\<lambda>b. b" and i = i and k = k] i k p \<open>k \<noteq> i\<close>
      show "unat (?ix ! k - 1) \<noteq> unat (?ix ! i - 1)"
        by (simp only: dest [OF k] dest [OF i p]) simp
    qed
  qed
  then have "?res ! j = xs ! i"
    by (simp only: dest [OF i p] c)
  also have "xs ! i = map fst (filter snd (zip xs bs)) ! j"
  proof -
    have iz: "i < length (zip xs bs)" and sz: "snd (zip xs bs ! i)"
      using i p len by simp_all
    have "filter snd (zip xs bs) ! length (filter snd (take i (zip xs bs))) = zip xs bs ! i"
      using filter_nth_count [where xs = "zip xs bs" and P = snd and i = i] iz sz by simp
    then have "filter snd (zip xs bs) ! j = (xs ! i, bs ! i)"
      using i len c by (simp add: flags_count_take [OF len])
    moreover have "j < length (filter snd (zip xs bs))"
      using j by (simp add: flags_count [OF len])
    ultimately show ?thesis by simp
  qed
  finally show "?res ! j = map fst (filter snd (zip xs bs)) ! j" .
qed

lemma vecFilter_by_flags:
  assumes m: "doMap_vector_bool sched_map (vector_bool_n (length xs)) xs P (length xs) = Inr bolMatch"
    and sz: "vb_size bolMatch = length xs"
    and ts: "splits tree_scan (0, length xs)"
    and sf: "schedules sched_filter (0, length xs)" and small: "length xs < 2 ^ 64"
  shows "vecFilter sched_map tree_scan sched_filter T_init xs P
    = Inr (map fst (filter snd (zip xs (vb_list bolMatch))))"
proof -
  let ?n = "length xs"
  let ?bs = "vb_list bolMatch"
  let ?ix = "map (\<lambda>i. of_nat (length (filter (\<lambda>b. b) (take (Suc i) ?bs))) :: size_t) [0..<?n]"
  let ?c = "length (filter (\<lambda>b. b) ?bs)"
  have len: "length ?bs = ?n" using sz by simp
  have s: "doScan tree_scan (replicate ?n 0) ?bs 0 scanFunc of_bool ?n = Inr (of_nat ?c, ?ix)"
    using flags_scan [of tree_scan ?bs] ts len by simp
  have "?c \<le> length ?bs" by (rule length_filter_le)
  with small len have cs: "?c < 2 ^ 64" by simp
  have c: "unat (of_nat ?c :: size_t) = ?c"
    by (rule unat_count [OF cs])
  have dests: "\<forall>i<?n. ?bs ! i \<longrightarrow> unat (?ix ! i - 1) < length (replicate ?c T_init)"
  proof (intro allI impI)
    fix i assume i: "i < ?n" and p: "?bs ! i"
    have "length (filter (\<lambda>b. b) (take (Suc i) ?bs)) \<le> length (filter (\<lambda>b. b) (take ?n ?bs))"
      using i by (intro count_mono) simp
    then have "length (filter (\<lambda>b. b) (take i ?bs)) < ?c"
      using i p len count_step [where xs = ?bs and P = "\<lambda>b. b" and i = i] by simp
    moreover have "unat (?ix ! i - 1) = length (filter (\<lambda>b. b) (take i ?bs))"
      using i p len small scan_destination [where xs = ?bs and P = "\<lambda>b. b" and i = i] by simp
    ultimately show "unat (?ix ! i - 1) < length (replicate ?c T_init)" by simp
  qed
  have f: "doFilter sched_filter (replicate ?c T_init) xs ?bs ?ix ?n
      = Inr (fold (scatter_store xs ?bs ?ix) (visit_order sched_filter (0, ?n))
               (replicate ?c T_init))"
    using dests len by (intro doFilter_result [OF sf]) simp_all
  have ks: "set (visit_order sched_filter (0, ?n)) = {0..<length ?bs}"
    using visit_order_set [OF sf] by (simp only: len)
  have small': "length ?bs < 2 ^ 64" and len': "length xs = length ?bs"
    using small by (simp_all only: len)
  have "fold (scatter_store xs ?bs ?ix) (visit_order sched_filter (0, ?n)) (replicate ?c T_init)
      = map fst (filter snd (zip xs ?bs))"
    using flags_compaction_fold [OF ks small' len', of T_init] by (simp only: len)
  with m s c f show ?thesis
    by (simp add: vecFilter_def Let_def)
qed

lemma selected_by_predicate: "map fst (filter snd (zip xs (map P xs))) = filter P xs"
  by (induction xs) simp_all

lemma vecFilter_in_turn:
  assumes sp: "splits t (0, length xs)" and ts: "splits tree_scan (0, length xs)"
    and sf: "schedules sched_filter (0, length xs)" and small: "length xs < 2 ^ 64"
  shows "vecFilter (t, []) tree_scan sched_filter T_init xs P = Inr (filter P xs)"
proof -
  from doMap_vector_bool_in_turn [OF sp, of xs "vector_bool_n (length xs)" P]
    vector_bool_n_room [of "length xs"]
  obtain bm where m: "doMap_vector_bool (t, []) (vector_bool_n (length xs)) xs P (length xs) = Inr bm"
    and sz: "vb_size bm = length xs" and l: "vb_list bm = map P xs"
    by (auto simp: vector_bool_n_list)
  from vecFilter_by_flags [OF m sz ts sf small, of T_init] l show ?thesis
    by (simp add: selected_by_predicate)
qed

section \<open>Boundary cases, and the scan under different splits\<close>

lemma splits_small: "splits t (0, n) \<Longrightarrow> n \<le> 1 \<Longrightarrow> t = Leaf"
  by (cases t) auto

lemma doScan_single:
  assumes "splits t (0, 1)" and "1 \<le> length inp" and "1 \<le> length out"
  shows "doScan t out inp ident func conv 1
    = Inr (func ident (conv (inp ! 0)), func ident (conv (inp ! 0)) # drop 1 out)"
proof -
  from assms(1) have t: "t = Leaf" by (rule splits_small) simp
  have "segment inp 0 1 = [inp ! 0]"
    using assms(2) segment_Cons [of 0 1 inp] by simp
  then show ?thesis
    using assms(2,3) doScan_loop_final [of 0 1 inp out func conv ident]
    by (simp add: t doScan_def parallel_scan_def parallel_scan_body_def)
qed

lemma doScan_empty:
  assumes "splits t (0, 0)"
  shows "doScan t out inp ident func conv 0 = Inr (ident, out)"
proof -
  from assms have t: "t = Leaf" by (rule splits_small) simp
  show ?thesis
    using doScan_loop_final [of 0 0 inp out func conv ident]
    by (simp add: t doScan_def parallel_scan_def parallel_scan_body_def)
qed

lemma destinations_of_flags:
  assumes ts: "splits tree_scan (0, length bs)" and small: "length bs < 2 ^ 64"
  shows "\<exists>outSize ixMatch.
      doScan tree_scan (replicate (length bs) 0) bs 0 scanFunc of_bool (length bs)
        = Inr (outSize, ixMatch) \<and>
      (\<forall>i<length bs. \<forall>j<length bs.
         i \<noteq> j \<longrightarrow> bs ! i \<longrightarrow> bs ! j \<longrightarrow>
           ixMatch ! i - 1 \<noteq> ixMatch ! j - 1 \<and>
           unat (ixMatch ! i - 1) \<noteq> unat (ixMatch ! j - 1)) \<and>
      (\<forall>i<length bs. bs ! i \<longrightarrow>
         unat (ixMatch ! i - 1) < length (replicate (unat outSize) T_init))"
proof -
  let ?n = "length bs"
  let ?ix = "map (\<lambda>i. of_nat (length (filter (\<lambda>b. b) (take (Suc i) bs))) :: size_t) [0..<?n]"
  let ?c = "length (filter (\<lambda>b. b) bs)"
  have s: "doScan tree_scan (replicate ?n 0) bs 0 scanFunc of_bool ?n = Inr (of_nat ?c, ?ix)"
    by (rule flags_scan [OF ts])
  have c: "unat (of_nat ?c :: size_t) = ?c"
    by (rule unat_count [OF le_less_trans [OF length_filter_le small]])
  have dest: "unat (?ix ! k - 1) = length (filter (\<lambda>b. b) (take k bs))"
    if "k < ?n" "bs ! k" for k
    using that small scan_destination [where xs = bs and P = "\<lambda>b. b" and i = k] by simp
  have apart: "unat (?ix ! i - 1) \<noteq> unat (?ix ! j - 1)"
    if "i < ?n" "j < ?n" "i \<noteq> j" "bs ! i" "bs ! j" for i j
    using count_injective [where xs = bs and P = "\<lambda>b. b" and i = j and k = i] that
    by (simp only: dest [OF that(1) that(4)] dest [OF that(2) that(5)]) simp
  have inside: "unat (?ix ! i - 1) < length (replicate (unat (of_nat ?c :: size_t)) T_init)"
    if "i < ?n" "bs ! i" for i
  proof -
    have "length (filter (\<lambda>b. b) (take (Suc i) bs)) \<le> length (filter (\<lambda>b. b) (take ?n bs))"
      using that(1) by (intro count_mono) simp
    then have "length (filter (\<lambda>b. b) (take i bs)) < ?c"
      using that count_step [where xs = bs and P = "\<lambda>b. b" and i = i] by simp
    then show ?thesis
      by (simp only: dest [OF that] c length_replicate)
  qed
  from apart have apart': "?ix ! i - 1 \<noteq> ?ix ! j - 1"
    if "i < ?n" "j < ?n" "i \<noteq> j" "bs ! i" "bs ! j" for i j
    using that by metis
  from s apart apart' inside show ?thesis by blast
qed

lemma run_interleaved_idle:
  assumes "\<And>w. w \<in> set ws \<Longrightarrow> step w s = Inr (w, s)"
  shows "run_interleaved ks step ws s = Inr (ws, s)"
proof (induction ks)
  case Nil
  then show ?case by simp
next
  case (Cons k ks)
  show ?case
  proof (cases "k < length ws")
    case True
    then have "step (ws ! k) s = Inr (ws ! k, s)" by (intro assms) simp
    with True Cons.IH show ?thesis by simp
  next
    case False
    with Cons.IH show ?thesis by simp
  qed
qed

lemma doMap_vector_bool_empty:
  assumes "splits (fst il) (0, 0)"
  shows "doMap_vector_bool il out inp func 0 = Inr out"
proof -
  from assms have t: "fst il = Leaf" by (rule splits_small) simp
  have "run_interleaved (snd il) (doMap_bits_step func inp) [At_loop 0 0] out
      = Inr ([At_loop 0 0], out)"
    by (rule run_interleaved_idle) simp
  then show ?thesis
    by (simp add: doMap_vector_bool_def parallel_for_workers_def t doMap_bits_loop.simps)
qed

lemma vecFilter_empty:
  assumes "splits (fst sm) (0, 0)" and "splits ts (0, 0)" and "schedules sf (0, 0)"
  shows "vecFilter sm ts sf T_init [] predicate = Inr []"
proof -
  have m: "doMap_vector_bool sm (vector_bool_n (length [])) [] predicate (length [])
      = Inr (vector_bool_n 0)"
    using doMap_vector_bool_empty [OF assms(1), of "vector_bool_n 0" "[]" predicate] by simp
  have "vecFilter sm ts sf T_init [] predicate
      = Inr (map fst (filter snd (zip [] (vb_list (vector_bool_n 0)))))"
    using assms by (intro vecFilter_by_flags [OF m]) (simp_all add: vector_bool_n_def)
  then show ?thesis by simp
qed

lemma scan_schedule_independence:
  assumes "splits t (0, n)" and "splits t' (0, n)"
  shows "((\<forall>a b c. func (func a b) c = func a (func b c)) \<and>
          (\<forall>a. func ident a = a \<and> func a ident = a) \<and>
          n \<le> length inp \<and> n \<le> length out \<longrightarrow>
            doScan t out inp ident func conv n = doScan t' out inp ident func conv n \<and>
            (\<exists>total out'. doScan t out inp ident func conv n = Inr (total, out'))) \<and>
         (\<forall>(x :: 'm :: monoid_add list) y. n \<le> length x \<and> n \<le> length y \<longrightarrow>
            DoParallelScan t y x n = DoParallelScan t' y x n \<and>
            DoParallelScan t y x n = DoSerialScan y x n \<and>
            (\<exists>total y'. DoParallelScan t y x n = Inr (total, y')))"
proof (intro conjI impI allI)
  assume h: "(\<forall>a b c. func (func a b) c = func a (func b c)) \<and>
          (\<forall>a. func ident a = a \<and> func a ident = a) \<and>
          n \<le> length inp \<and> n \<le> length out"
  then have assoc: "\<And>a b c. func (func a b) c = func a (func b c)"
    and rid: "\<And>a. func a ident = a" and li: "n \<le> length inp" and lo: "n \<le> length out"
    by simp_all
  show "doScan t out inp ident func conv n = doScan t' out inp ident func conv n"
    by (simp only: doScan_result [OF assoc rid assms(1) li lo]
        doScan_result [OF assoc rid assms(2) li lo])
  show "\<exists>total out'. doScan t out inp ident func conv n = Inr (total, out')"
    by (simp only: doScan_result [OF assoc rid assms(1) li lo]) blast
next
  fix x y :: "'m list"
  assume h: "n \<le> length x \<and> n \<le> length y"
  have run: "DoParallelScan s y x n
      = Inr (foldl (+) 0 (map id (take n x)), sequential_scan (+) 0 (map id (take n x)) @ drop n y)"
    if "splits s (0, n)" for s
    using that h doScan_result [of "(+)" "0 :: 'm" s n x y id]
    by (simp add: DoParallelScan_doScan add.assoc)
  show "DoParallelScan t y x n = DoParallelScan t' y x n"
    by (simp only: run [OF assms(1)] run [OF assms(2)])
  show "DoParallelScan t y x n = DoSerialScan y x n"
    using h by (simp add: run [OF assms(1)] DoSerialScan_result)
  show "\<exists>total y'. DoParallelScan t y x n = Inr (total, y')"
    by (simp only: run [OF assms(1)]) blast
qed

section \<open>Claims\<close>

text \<open>
  C1. For every length \<open>n\<close>, every input, every associative combiner \<open>func\<close> (not
  necessarily commutative) with identity element \<open>ident\<close> and every tree of splits,
  \<open>doScan(out, in, ident, func, n)\<close> sets \<open>out[i]\<close> to
  \<open>in[0] \<oplus> in[1] \<oplus> \<dots> \<oplus> in[i]\<close> for every \<open>i\<close> in \<open>[0, n)\<close> and returns the
  total \<open>in[0] \<oplus> \<dots> \<oplus> in[n-1]\<close> (the identity when \<open>n = 0\<close>). Output and total are
  those of the sequential left-to-right fold with the same combiner, and with addition
  and zero they are what \<open>DoSerialScan\<close> computes. The arrays are at least \<open>n\<close>
  long, as the contract of \<open>doScan\<close> requires.
\<close>

theorem doScan_inclusive_prefix:
  assumes "\<forall>a b c. func (func a b) c = func a (func b c)"
    and "\<forall>a. func ident a = a \<and> func a ident = a"
    and "splits t (0, n)" and "n \<le> length inp" and "n \<le> length out"
  shows "\<exists>total out'. doScan t out inp ident func conv n = Inr (total, out') \<and>
      length out' = length out \<and>
      (\<forall>i<n. out' ! i = foldl func (conv (inp ! 0)) (map conv (segment inp 1 (Suc i)))) \<and>
      (0 < n \<longrightarrow> total = foldl func (conv (inp ! 0)) (map conv (segment inp 1 n))) \<and>
      (n = 0 \<longrightarrow> total = ident) \<and>
      total = foldl func ident (map conv (take n inp)) \<and>
      out' = sequential_scan func ident (map conv (take n inp)) @ drop n out \<and>
      (\<forall>(x :: 'm :: monoid_add list) y. n \<le> length x \<longrightarrow> n \<le> length y \<longrightarrow>
         doScan t y x 0 (+) id n = DoSerialScan y x n)"
proof -
  let ?xs = "map conv (take n inp)"
  let ?total = "foldl func ident ?xs"
  let ?out' = "sequential_scan func ident ?xs @ drop n out"
  from assms(1) have assoc: "\<And>a b c. func (func a b) c = func a (func b c)" by simp
  from assms(2) have lid: "\<And>a. func ident a = a" and rid: "\<And>a. func a ident = a" by simp_all
  have run: "doScan t out inp ident func conv n = Inr (?total, ?out')"
    by (rule doScan_result [OF assoc rid assms(3-5)])
  have len: "length ?out' = length out"
    using assms(4,5) by simp
  have pointwise: "?out' ! i = foldl func (conv (inp ! 0)) (map conv (segment inp 1 (Suc i)))"
    if "i < n" for i
  proof -
    from that assms(4) have "?out' ! i = foldl func ident (take (Suc i) ?xs)"
      by (simp add: nth_append sequential_scan_nth)
    also from that have "take (Suc i) ?xs = map conv (take (Suc i) inp)"
      by (simp add: take_map min_def)
    also from that assms(4) have "foldl func ident (map conv (take (Suc i) inp))
        = foldl func (conv (inp ! 0)) (map conv (segment inp 1 (Suc i)))"
      by (intro foldl_from_first lid) simp
    finally show ?thesis .
  qed
  have total: "?total = foldl func (conv (inp ! 0)) (map conv (segment inp 1 n))" if "0 < n"
  proof -
    from that obtain k where k: "n = Suc k" by (cases n) simp_all
    with assms(4) show ?thesis
      by (simp only: k) (intro foldl_from_first lid, simp)
  qed
  have serial: "doScan t y x 0 (+) id n = DoSerialScan y x n"
    if "n \<le> length x" "n \<le> length y" for x :: "'m :: monoid_add list" and y
    using doScan_result [of "(+)" "0 :: 'm" t n x y id] that assms(3)
    by (simp add: DoSerialScan_result add.assoc)
  from run len pointwise total serial show ?thesis by simp
qed

theorem doScan_inclusive_prefix_witness:
  "(\<forall>a b c :: string. (a @ b) @ c = a @ (b @ c)) \<and>
   (\<forall>a :: string. [] @ a = a \<and> a @ [] = a) \<and>
   splits (Split 1 Leaf (Split 2 Leaf Leaf)) (0, 3) \<and>
   doScan (Split 1 Leaf (Split 2 Leaf Leaf)) ['''', '''', ''''] [''a'', ''b'', ''c''] [] (@) id 3
     = Inr (''abc'', [''a'', ''ab'', ''abc''])"
proof -
  have h1: "\<forall>a b c :: string. (a @ b) @ c = a @ (b @ c)" by simp
  have h2: "\<forall>a :: string. [] @ a = a \<and> a @ [] = a" by simp
  have h3: "splits (Split 1 Leaf (Split 2 Leaf Leaf)) (0, 3)" by simp
  have h4: "3 \<le> length [''a'', ''b'', ''c'']" by simp
  have h5: "3 \<le> length ['''', '''', '''']" by simp
  have "doScan (Split 1 Leaf (Split 2 Leaf Leaf)) ['''', '''', ''''] [''a'', ''b'', ''c''] [] (@) id 3
     = Inr (''abc'', [''a'', ''ab'', ''abc''])"
    using doScan_inclusive_prefix [OF h1 h2 h3 h4 h5, of id]
    by auto
  with h1 h2 h3 show ?thesis by blast
qed

text \<open>
  C2. \<open>vecFilter(inputVec, predicate)\<close> is to return exactly the elements of
  \<open>inputVec\<close> that satisfy the predicate, in their order. The code misses this when two
  workers of the map step store into the same word of \<open>bolMatch\<close> at the same time: on
  the input \<open>[20, 30]\<close> with the predicate \<open>x > 10\<close>, split into two leaves, both workers
  load the word before either stores it back, the second store erases the flag of \<open>20\<close>,
  and \<open>vecFilter\<close> returns \<open>[30]\<close>, where the filtered input is \<open>[20, 30]\<close>. With the
  same split and the leaves one after the other it returns \<open>[20, 30]\<close>.
\<close>

theorem vecFilter_loses_element:
  "splits (Split 1 Leaf Leaf) (0, 2) \<and> splits Leaf (0, 2) \<and> schedules (Leaf, [0]) (0, 2) \<and>
   vecFilter (Split 1 Leaf Leaf, [0, 1]) Leaf (Leaf, [0]) 0 [20, 30 :: nat] (\<lambda>x. 10 < x)
     = Inr [30] \<and>
   filter (\<lambda>x. 10 < x) [20, 30 :: nat] = [20, 30] \<and>
   vecFilter (Split 1 Leaf Leaf, []) Leaf (Leaf, [0]) 0 [20, 30 :: nat] (\<lambda>x. 10 < x)
     = Inr [20, 30]"
proof -
  have "splits (Split 1 Leaf Leaf) (0, 2)" and "splits Leaf (0, 2)"
    and "schedules (Leaf, [0]) (0, 2)"
    by code_simp+
  moreover have "vecFilter (Split 1 Leaf Leaf, [0, 1]) Leaf (Leaf, [0]) 0 [20, 30 :: nat]
      (\<lambda>x. 10 < x) = Inr [30]"
    by code_simp
  moreover have "filter (\<lambda>x. 10 < x) [20, 30 :: nat] = [20, 30]"
    by simp
  moreover have "vecFilter (Split 1 Leaf Leaf, []) Leaf (Leaf, [0]) 0 [20, 30 :: nat]
      (\<lambda>x. 10 < x) = Inr [20, 30]"
    by code_simp
  ultimately show ?thesis by blast
qed

text \<open>
  C3. The scatter pass \<open>doFilter(out, in, bolMatch, ixMatch, n)\<close> performs, for every
  \<open>i\<close> in \<open>[0, n)\<close> with \<open>bolMatch[i]\<close> true, the store \<open>out[ixMatch[i] - 1] = in[i]\<close>,
  once, and no other store: its result is \<open>out\<close> after exactly these stores, in the
  order in which the schedule visits the indices. So the length of \<open>out\<close> and every
  slot that is not a destination \<open>ixMatch[i] - 1\<close> of a flagged index stay as they
  were, and a destination holds \<open>in[i]\<close> when no other flagged index has the same
  destination. The input arrays are at least \<open>n\<close> long and the destinations lie
  within \<open>out\<close>, as the contract of \<open>doFilter\<close> requires.
\<close>

theorem doFilter_stores:
  assumes "schedules sched (0, n)"
    and "n \<le> length inp" and "n \<le> length bolMatch" and "n \<le> length ixMatch"
    and "\<forall>i<n. bolMatch ! i \<longrightarrow> unat (ixMatch ! i - 1) < length out"
  shows "\<exists>out'. doFilter sched out inp bolMatch ixMatch n = Inr out' \<and>
     out' = fold (scatter_store inp bolMatch ixMatch) (visit_order sched (0, n)) out \<and>
     mset (visit_order sched (0, n)) = mset [0..<n] \<and>
     length out' = length out \<and>
     (\<forall>j<length out. (\<forall>i<n. bolMatch ! i \<longrightarrow> unat (ixMatch ! i - 1) \<noteq> j)
        \<longrightarrow> out' ! j = out ! j) \<and>
     (\<forall>i<n. bolMatch ! i \<longrightarrow>
        (\<forall>k<n. bolMatch ! k \<longrightarrow> k \<noteq> i \<longrightarrow> unat (ixMatch ! k - 1) \<noteq> unat (ixMatch ! i - 1))
        \<longrightarrow> out' ! unat (ixMatch ! i - 1) = inp ! i)"
proof -
  let ?ks = "visit_order sched (0, n)"
  let ?out' = "fold (scatter_store inp bolMatch ixMatch) ?ks out"
  have run: "doFilter sched out inp bolMatch ixMatch n = Inr ?out'"
    by (rule doFilter_result [OF assms])
  have ms: "mset ?ks = mset [0..<n]"
    by (rule visit_order_mset [OF assms(1)])
  have ks: "set ?ks = {0..<n}"
    by (rule visit_order_set [OF assms(1)])
  have same: "?out' ! j = out ! j"
    if "\<forall>i<n. bolMatch ! i \<longrightarrow> unat (ixMatch ! i - 1) \<noteq> j" for j
    using that ks by (intro fold_scatter_unchanged) simp
  have written: "?out' ! unat (ixMatch ! i - 1) = inp ! i"
    if "i < n" "bolMatch ! i"
      "\<forall>k<n. bolMatch ! k \<longrightarrow> k \<noteq> i \<longrightarrow> unat (ixMatch ! k - 1) \<noteq> unat (ixMatch ! i - 1)" for i
    using that ks assms(5) by (intro fold_scatter_written) simp_all
  from run ms same written show ?thesis by simp
qed

theorem doFilter_stores_witness:
  "schedules (Split 1 Leaf Leaf, [1, 0]) (0, 3) \<and>
   unat ([1, 1, 2 :: size_t] ! 0 - 1) < length [0, 0 :: int] \<and>
   unat ([1, 1, 2 :: size_t] ! 2 - 1) < length [0, 0 :: int] \<and>
   doFilter (Split 1 Leaf Leaf, [1, 0]) [0, 0] [10, 20, 30 :: int] [True, False, True] [1, 1, 2] 3
     = Inr [10, 30]"
proof -
  have h1: "schedules (Split 1 Leaf Leaf, [1, 0]) (0, 3)"
    by (auto simp: schedules_def)
  have h2: "3 \<le> length [10, 20, 30 :: int]" and h3: "3 \<le> length [True, False, True]"
    and h4: "3 \<le> length [1, 1, 2 :: size_t]"
    by simp_all
  have h5: "\<forall>i<3. [True, False, True] ! i \<longrightarrow> unat ([1, 1, 2 :: size_t] ! i - 1) < length [0, 0 :: int]"
    by (simp add: numeral_3_eq_3 All_less_Suc)
  have "doFilter (Split 1 Leaf Leaf, [1, 0]) [0, 0] [10, 20, 30 :: int] [True, False, True] [1, 1, 2] 3
     = Inr [10, 30]"
    using doFilter_stores [OF h1 h2 h3 h4 h5]
    by (simp add: visit_order_def scatter_store_def upt_conv_Cons)
  with h1 show ?thesis by simp
qed

text \<open>
  C4. \<open>doMap(out, in, func, n)\<close> is to set \<open>out[i] = func(in[i])\<close> for every \<open>i\<close> in
  \<open>[0, n)\<close>, however the range is split and however many threads run it. The code
  misses this for the output that the program hands to it, a \<open>vector<bool>\<close>: with
  \<open>in = [20, 30]\<close>, \<open>func\<close> the test \<open>x > 10\<close>, \<open>n = 2\<close> and two leaves whose workers
  both load the word of \<open>out\<close> before either stores it back, \<open>out\<close> ends as
  \<open>[false, true]\<close>, where \<open>func\<close> of the elements is \<open>[true, true]\<close>. With the leaves
  one after the other, \<open>out\<close> ends as \<open>[true, true]\<close>.
\<close>

theorem doMap_vector_bool_loses_store:
  "splits (Split 1 Leaf Leaf) (0, 2) \<and>
   doMap_vector_bool (Split 1 Leaf Leaf, [0, 1]) (vector_bool_n 2) [20, 30 :: nat] (\<lambda>x. 10 < x) 2
     = Inr \<lparr>vb_words = [2], vb_size = 2\<rparr> \<and>
   vb_list \<lparr>vb_words = [2], vb_size = 2\<rparr> = [False, True] \<and>
   map (\<lambda>x. 10 < x) [20, 30 :: nat] = [True, True] \<and>
   doMap_vector_bool (Split 1 Leaf Leaf, []) (vector_bool_n 2) [20, 30 :: nat] (\<lambda>x. 10 < x) 2
     = Inr \<lparr>vb_words = [3], vb_size = 2\<rparr> \<and>
   vb_list \<lparr>vb_words = [3], vb_size = 2\<rparr> = [True, True]"
proof -
  have "splits (Split 1 Leaf Leaf) (0, 2)"
    by code_simp
  moreover have "doMap_vector_bool (Split 1 Leaf Leaf, [0, 1]) (vector_bool_n 2) [20, 30 :: nat]
      (\<lambda>x. 10 < x) 2 = Inr \<lparr>vb_words = [2], vb_size = 2\<rparr>"
    by code_simp
  moreover have "vb_list \<lparr>vb_words = [2], vb_size = 2\<rparr> = [False, True]"
    by code_simp
  moreover have "map (\<lambda>x. 10 < x) [20, 30 :: nat] = [True, True]"
    by simp
  moreover have "doMap_vector_bool (Split 1 Leaf Leaf, []) (vector_bool_n 2) [20, 30 :: nat]
      (\<lambda>x. 10 < x) 2 = Inr \<lparr>vb_words = [3], vb_size = 2\<rparr>"
    by code_simp
  moreover have "vb_list \<lparr>vb_words = [3], vb_size = 2\<rparr> = [True, True]"
    by code_simp
  ultimately show ?thesis by blast
qed

text \<open>
  C5. In \<open>doFilter\<close> as \<open>vecFilter\<close> calls it (\<open>bolMatch\<close> from the map step,
  \<open>ixMatch\<close> the inclusive prefix sum of \<open>bolMatch\<close>, and the output of the size
  \<open>outSize\<close> that the scan returns), two different indices \<open>i\<close> and \<open>j\<close> with
  \<open>bolMatch[i]\<close> and \<open>bolMatch[j]\<close> true have different destinations
  \<open>ixMatch[i] - 1\<close> and \<open>ixMatch[j] - 1\<close>, and every such destination is smaller
  than the length of the output. This holds for the flags that the map into the
  \<open>vector<bool>\<close> leaves under every interleaving of its workers, for the flags of a map
  into separately stored booleans, and for every vector of flags of the length of the
  input.
\<close>

theorem vecFilter_destinations:
  assumes "schedules sched_map (0, length inputVec)"
    and "splits tree_scan (0, length inputVec)"
    and "length inputVec < 2 ^ 64"
  shows "(\<exists>bolMatch outSize ixMatch.
      doMap sched_map (replicate (length inputVec) False) inputVec predicate (length inputVec)
        = Inr bolMatch \<and>
      doScan tree_scan (replicate (length inputVec) 0) bolMatch 0 scanFunc of_bool (length inputVec)
        = Inr (outSize, ixMatch) \<and>
      (\<forall>i<length inputVec. \<forall>j<length inputVec.
         i \<noteq> j \<longrightarrow> bolMatch ! i \<longrightarrow> bolMatch ! j \<longrightarrow>
           ixMatch ! i - 1 \<noteq> ixMatch ! j - 1 \<and>
           unat (ixMatch ! i - 1) \<noteq> unat (ixMatch ! j - 1)) \<and>
      (\<forall>i<length inputVec. bolMatch ! i \<longrightarrow>
         unat (ixMatch ! i - 1) < length (replicate (unat outSize) T_init))) \<and>
    (\<forall>il. splits (fst il) (0, length inputVec) \<longrightarrow>
      (\<exists>bolMatch outSize ixMatch.
        doMap_vector_bool il (vector_bool_n (length inputVec)) inputVec predicate (length inputVec)
          = Inr bolMatch \<and>
        doScan tree_scan (replicate (length inputVec) 0) (vb_list bolMatch) 0 scanFunc of_bool
            (length inputVec)
          = Inr (outSize, ixMatch) \<and>
        (\<forall>i<length inputVec. \<forall>j<length inputVec.
           i \<noteq> j \<longrightarrow> vb_list bolMatch ! i \<longrightarrow> vb_list bolMatch ! j \<longrightarrow>
             ixMatch ! i - 1 \<noteq> ixMatch ! j - 1 \<and>
             unat (ixMatch ! i - 1) \<noteq> unat (ixMatch ! j - 1)) \<and>
        (\<forall>i<length inputVec. vb_list bolMatch ! i \<longrightarrow>
           unat (ixMatch ! i - 1) < length (replicate (unat outSize) T_init)))) \<and>
    (\<forall>flags. length flags = length inputVec \<longrightarrow>
      (\<exists>outSize ixMatch.
        doScan tree_scan (replicate (length inputVec) 0) flags 0 scanFunc of_bool (length inputVec)
          = Inr (outSize, ixMatch) \<and>
        (\<forall>i<length inputVec. \<forall>j<length inputVec.
           i \<noteq> j \<longrightarrow> flags ! i \<longrightarrow> flags ! j \<longrightarrow>
             ixMatch ! i - 1 \<noteq> ixMatch ! j - 1 \<and>
             unat (ixMatch ! i - 1) \<noteq> unat (ixMatch ! j - 1)) \<and>
        (\<forall>i<length inputVec. flags ! i \<longrightarrow>
           unat (ixMatch ! i - 1) < length (replicate (unat outSize) T_init))))"
proof -
  let ?n = "length inputVec"
  have any: "\<exists>outSize ixMatch.
        doScan tree_scan (replicate ?n 0) flags 0 scanFunc of_bool ?n = Inr (outSize, ixMatch) \<and>
        (\<forall>i<?n. \<forall>j<?n. i \<noteq> j \<longrightarrow> flags ! i \<longrightarrow> flags ! j \<longrightarrow>
             ixMatch ! i - 1 \<noteq> ixMatch ! j - 1 \<and>
             unat (ixMatch ! i - 1) \<noteq> unat (ixMatch ! j - 1)) \<and>
        (\<forall>i<?n. flags ! i \<longrightarrow> unat (ixMatch ! i - 1) < length (replicate (unat outSize) T_init))"
    if "length flags = ?n" for flags
    using destinations_of_flags [of tree_scan flags T_init] assms(2,3) that by simp
  have m: "doMap sched_map (replicate ?n False) inputVec predicate ?n = Inr (map predicate inputVec)"
    using doMap_result [OF assms(1), of inputVec "replicate ?n False" predicate] by simp
  have first: "\<exists>bolMatch outSize ixMatch.
      doMap sched_map (replicate ?n False) inputVec predicate ?n = Inr bolMatch \<and>
      doScan tree_scan (replicate ?n 0) bolMatch 0 scanFunc of_bool ?n = Inr (outSize, ixMatch) \<and>
      (\<forall>i<?n. \<forall>j<?n. i \<noteq> j \<longrightarrow> bolMatch ! i \<longrightarrow> bolMatch ! j \<longrightarrow>
           ixMatch ! i - 1 \<noteq> ixMatch ! j - 1 \<and>
           unat (ixMatch ! i - 1) \<noteq> unat (ixMatch ! j - 1)) \<and>
      (\<forall>i<?n. bolMatch ! i \<longrightarrow> unat (ixMatch ! i - 1) < length (replicate (unat outSize) T_init))"
    using m any [of "map predicate inputVec"] by auto
  have second: "\<exists>bolMatch outSize ixMatch.
        doMap_vector_bool il (vector_bool_n ?n) inputVec predicate ?n = Inr bolMatch \<and>
        doScan tree_scan (replicate ?n 0) (vb_list bolMatch) 0 scanFunc of_bool ?n
          = Inr (outSize, ixMatch) \<and>
        (\<forall>i<?n. \<forall>j<?n. i \<noteq> j \<longrightarrow> vb_list bolMatch ! i \<longrightarrow> vb_list bolMatch ! j \<longrightarrow>
             ixMatch ! i - 1 \<noteq> ixMatch ! j - 1 \<and>
             unat (ixMatch ! i - 1) \<noteq> unat (ixMatch ! j - 1)) \<and>
        (\<forall>i<?n. vb_list bolMatch ! i \<longrightarrow>
           unat (ixMatch ! i - 1) < length (replicate (unat outSize) T_init))"
    if "splits (fst il) (0, ?n)" for il
  proof -
    from doMap_vector_bool_runs [OF that, of inputVec "vector_bool_n ?n" predicate]
    obtain bm where r: "doMap_vector_bool il (vector_bool_n ?n) inputVec predicate ?n = Inr bm"
      and sz: "vb_size bm = ?n"
      by (auto simp: vector_bool_n_def)
    from any [of "vb_list bm"] sz r show ?thesis by auto
  qed
  from first second any show ?thesis by blast
qed

theorem vecFilter_destinations_witness:
  "schedules (Split 1 Leaf Leaf, [1, 0]) (0, length [5, 20, 30 :: nat]) \<and>
   splits (Split 2 Leaf Leaf) (0, length [5, 20, 30 :: nat]) \<and>
   length [5, 20, 30 :: nat] < 2 ^ 64 \<and>
   doScan (Split 2 Leaf Leaf) (replicate (length [5, 20, 30 :: nat]) 0) [False, True, True] 0
     scanFunc of_bool (length [5, 20, 30 :: nat]) = Inr (2, [0, 1, 2])"
proof -
  have h1: "schedules (Split 1 Leaf Leaf, [1, 0]) (0, length [5, 20, 30 :: nat])"
    by (auto simp: schedules_def)
  have h2: "splits (Split 2 Leaf Leaf) (0, length [5, 20, 30 :: nat])"
    by simp
  have h3: "length [5, 20, 30 :: nat] < 2 ^ 64"
    by simp
  have "doScan (Split 2 Leaf Leaf) (replicate (length [5, 20, 30 :: nat]) 0) [False, True, True] 0
     scanFunc of_bool (length [5, 20, 30 :: nat]) = Inr (2, [0, 1, 2])"
    by (simp add: doScan_def parallel_scan_def parallel_scan_body_def doScan_loop.simps
        scanFunc_def numeral_3_eq_3)
  with h1 h2 h3 vecFilter_destinations [OF h1 h2 h3, of "\<lambda>x. 10 < x" "0 :: nat"]
  show ?thesis by blast
qed

text \<open>
  C6. For a fixed input the results of the scan and of the filter are to be the same
  for every way of splitting the range and every number of workers. For the scan they
  are. For the filter the code misses this: with one and the same split of the input
  \<open>[11, 5, 12]\<close> into three leaves and the predicate \<open>x > 10\<close>, \<open>vecFilter\<close> returns
  \<open>[11, 12]\<close> when the workers of the map step run one after the other, \<open>[12]\<close> when
  the workers of \<open>11\<close> and \<open>12\<close> both load the word of \<open>bolMatch\<close> and the worker of
  \<open>12\<close> stores last, and \<open>[11]\<close> when the worker of \<open>11\<close> stores last.
\<close>

theorem vecFilter_depends_on_interleaving:
  "splits (Split 1 Leaf (Split 2 Leaf Leaf)) (0, 3) \<and> splits Leaf (0, 3) \<and>
   schedules (Leaf, [0]) (0, 3) \<and>
   vecFilter (Split 1 Leaf (Split 2 Leaf Leaf), []) Leaf (Leaf, [0]) 0 [11, 5, 12 :: nat]
     (\<lambda>x. 10 < x) = Inr [11, 12] \<and>
   vecFilter (Split 1 Leaf (Split 2 Leaf Leaf), [0, 2, 0, 2]) Leaf (Leaf, [0]) 0 [11, 5, 12 :: nat]
     (\<lambda>x. 10 < x) = Inr [12] \<and>
   vecFilter (Split 1 Leaf (Split 2 Leaf Leaf), [0, 2, 2, 0]) Leaf (Leaf, [0]) 0 [11, 5, 12 :: nat]
     (\<lambda>x. 10 < x) = Inr [11]"
proof -
  have "splits (Split 1 Leaf (Split 2 Leaf Leaf)) (0, 3)" and "splits Leaf (0, 3)"
    and "schedules (Leaf, [0]) (0, 3)"
    by code_simp+
  moreover have "vecFilter (Split 1 Leaf (Split 2 Leaf Leaf), []) Leaf (Leaf, [0]) 0
      [11, 5, 12 :: nat] (\<lambda>x. 10 < x) = Inr [11, 12]"
    by code_simp
  moreover have "vecFilter (Split 1 Leaf (Split 2 Leaf Leaf), [0, 2, 0, 2]) Leaf (Leaf, [0]) 0
      [11, 5, 12 :: nat] (\<lambda>x. 10 < x) = Inr [12]"
    by code_simp
  moreover have "vecFilter (Split 1 Leaf (Split 2 Leaf Leaf), [0, 2, 2, 0]) Leaf (Leaf, [0]) 0
      [11, 5, 12 :: nat] (\<lambda>x. 10 < x) = Inr [11]"
    by code_simp
  ultimately show ?thesis by blast
qed

text \<open>
  C7. On empty input (\<open>n = 0\<close>) \<open>doMap\<close> and \<open>doScan\<close> write nothing, so that an
  empty output stays empty, \<open>doScan\<close> returns the identity element, and \<open>vecFilter\<close>
  returns the empty vector. On a single element (\<open>n = 1\<close>) \<open>doScan\<close> sets \<open>out[0]\<close> to
  the identity combined with \<open>in[0]\<close>, which is \<open>in[0]\<close> itself as the identity is a
  left identity of the combiner.
\<close>

theorem empty_and_single_input:
  "(schedules sched (0, 0) \<longrightarrow> doMap sched out inp f 0 = Inr out \<and> doMap sched [] inp f 0 = Inr []) \<and>
   (splits (fst il) (0, 0) \<longrightarrow>
      doMap_vector_bool il vout inp g 0 = Inr vout \<and>
      doMap_vector_bool il (vector_bool_n 0) inp g 0 = Inr (vector_bool_n 0) \<and>
      vb_list (vector_bool_n 0) = []) \<and>
   (splits t (0, 0) \<longrightarrow>
      doScan t out' inp' ident func conv 0 = Inr (ident, out') \<and>
      doScan t [] inp' ident func conv 0 = Inr (ident, [])) \<and>
   (splits (fst sm) (0, 0) \<and> splits ts (0, 0) \<and> schedules sf (0, 0) \<longrightarrow>
      vecFilter sm ts sf T_init [] predicate = Inr []) \<and>
   (splits t1 (0, 1) \<and> 1 \<le> length inp1 \<and> 1 \<le> length out1 \<longrightarrow>
      (\<exists>total res. doScan t1 out1 inp1 ident func conv 1 = Inr (total, res) \<and>
         length res = length out1 \<and>
         res ! 0 = func ident (conv (inp1 ! 0)) \<and>
         ((\<forall>a. func ident a = a) \<longrightarrow> res ! 0 = conv (inp1 ! 0) \<and> total = conv (inp1 ! 0))))"
proof (intro conjI impI)
  assume s: "schedules sched (0, 0)"
  show "doMap sched out inp f 0 = Inr out"
    using doMap_result [OF s, of inp out f] by simp
  show "doMap sched [] inp f 0 = Inr []"
    using doMap_result [OF s, of inp "[]" f] by simp
next
  assume s: "splits (fst il) (0, 0)"
  show "doMap_vector_bool il vout inp g 0 = Inr vout"
    by (rule doMap_vector_bool_empty [OF s])
  show "doMap_vector_bool il (vector_bool_n 0) inp g 0 = Inr (vector_bool_n 0)"
    by (rule doMap_vector_bool_empty [OF s])
  show "vb_list (vector_bool_n 0) = []"
    by (simp add: vector_bool_n_list)
next
  assume s: "splits t (0, 0)"
  show "doScan t out' inp' ident func conv 0 = Inr (ident, out')"
    by (rule doScan_empty [OF s])
  show "doScan t [] inp' ident func conv 0 = Inr (ident, [])"
    by (rule doScan_empty [OF s])
next
  assume "splits (fst sm) (0, 0) \<and> splits ts (0, 0) \<and> schedules sf (0, 0)"
  then show "vecFilter sm ts sf T_init [] predicate = Inr []"
    by (intro vecFilter_empty) simp_all
next
  assume h: "splits t1 (0, 1) \<and> 1 \<le> length inp1 \<and> 1 \<le> length out1"
  then have "doScan t1 out1 inp1 ident func conv 1
      = Inr (func ident (conv (inp1 ! 0)), func ident (conv (inp1 ! 0)) # drop 1 out1)"
    by (intro doScan_single) simp_all
  moreover have "length (func ident (conv (inp1 ! 0)) # drop 1 out1) = length out1"
    using h by (cases out1) simp_all
  ultimately show "\<exists>total res. doScan t1 out1 inp1 ident func conv 1 = Inr (total, res) \<and>
         length res = length out1 \<and>
         res ! 0 = func ident (conv (inp1 ! 0)) \<and>
         ((\<forall>a. func ident a = a) \<longrightarrow> res ! 0 = conv (inp1 ! 0) \<and> total = conv (inp1 ! 0))"
    by simp
qed

theorem empty_and_single_input_witness:
  "schedules (Leaf, [0]) (0, 0) \<and> splits Leaf (0, 0) \<and> splits Leaf (0, 1) \<and>
   1 \<le> length [7 :: int] \<and> 1 \<le> length [0 :: int] \<and> (\<forall>a :: int. 0 + a = a) \<and>
   doMap (Leaf, [0]) [] ([] :: int list) (\<lambda>x. x + 1) 0 = Inr [] \<and>
   doMap_vector_bool (Leaf, [0, 0]) (vector_bool_n 0) ([] :: int list) (\<lambda>x. 10 < x) 0
     = Inr (vector_bool_n 0) \<and>
   doScan Leaf [] ([] :: int list) 0 (+) id 0 = Inr (0, []) \<and>
   vecFilter (Leaf, [0, 0]) Leaf (Leaf, [0]) 0 ([] :: int list) (\<lambda>x. 10 < x) = Inr [] \<and>
   doScan Leaf [0] [7 :: int] 0 (+) id 1 = Inr (7, [7])"
proof -
  have h1: "schedules (Leaf, [0]) (0, 0)"
    by (auto simp: schedules_def)
  have h2: "splits Leaf (0, 0)" and h3: "splits Leaf (0, 1)"
    by simp_all
  have h2': "splits (fst (Leaf, [0, 0 :: nat])) (0, 0)"
    by simp
  have h4: "1 \<le> length [7 :: int]" and h5: "1 \<le> length [0 :: int]" and h6: "\<forall>a :: int. 0 + a = a"
    by simp_all
  note e = empty_and_single_input [where sched = "(Leaf, [0])" and t = Leaf
      and sm = "(Leaf, [0, 0])" and il = "(Leaf, [0, 0])"
      and ts = Leaf and sf = "(Leaf, [0])" and ?t1.0 = Leaf
      and ident = "0 :: int" and func = "(+)" and conv = id]
  have "doMap (Leaf, [0]) [] ([] :: int list) (\<lambda>x. x + 1) 0 = Inr []"
    by (rule e [THEN conjunct1, THEN mp, OF h1, THEN conjunct2])
  moreover have "doMap_vector_bool (Leaf, [0, 0]) (vector_bool_n 0) ([] :: int list)
      (\<lambda>x. 10 < x) 0 = Inr (vector_bool_n 0)"
    by (rule e [THEN conjunct2, THEN conjunct1, THEN mp, OF h2', THEN conjunct2, THEN conjunct1])
  moreover have "doScan Leaf [] ([] :: int list) 0 (+) id 0 = Inr (0, [])"
    by (rule e [THEN conjunct2, THEN conjunct2, THEN conjunct1, THEN mp, OF h2, THEN conjunct2])
  moreover have "vecFilter (Leaf, [0, 0]) Leaf (Leaf, [0]) 0 ([] :: int list) (\<lambda>x. 10 < x) = Inr []"
    by (rule e [THEN conjunct2, THEN conjunct2, THEN conjunct2, THEN conjunct1, THEN mp,
          OF conjI [OF h2' conjI [OF h2 h1]]])
  moreover have "doScan Leaf [0] [7 :: int] 0 (+) id 1 = Inr (7, [7])"
  proof -
    from e [THEN conjunct2, THEN conjunct2, THEN conjunct2, THEN conjunct2, THEN mp,
        OF conjI [OF h3 conjI [OF h4 h5]]]
    obtain total res where r: "doScan Leaf [0] [7 :: int] 0 (+) id 1 = Inr (total, res)"
      and l: "length res = length [0 :: int]"
      and v: "(\<forall>a :: int. 0 + a = a) \<longrightarrow> res ! 0 = id ([7 :: int] ! 0) \<and> total = id ([7 :: int] ! 0)"
      by blast
    from v h6 have "res ! 0 = 7" and "total = 7" by simp_all
    moreover from l \<open>res ! 0 = 7\<close> have "res = [7]" by (cases res) simp_all
    ultimately show ?thesis using r by simp
  qed
  ultimately show ?thesis using h1 h2 h3 h4 h5 h6 by blast
qed

text \<open>
  C8. For the input \<open>[7, 1, 0, 13, 0, 15, 20, -1]\<close> of \<open>main\<close> and the predicate
  \<open>x > 10\<close>, the map step is to give \<open>bolMatch = [0, 0, 0, 1, 0, 1, 1, 0]\<close>, the scan
  \<open>ixMatch = [0, 0, 0, 1, 1, 2, 3, 3]\<close> with the total \<open>3\<close>, and the filter \<open>[13, 15, 20]\<close>.
  The code does so when the workers of the map step run one after the other. It
  misses it when the range is split at \<open>4\<close>, the worker of the left leaf has loaded
  the word of \<open>bolMatch\<close> for \<open>13\<close>, the worker of the right leaf loads the word for
  \<open>0\<close>, the left worker stores the flag of \<open>13\<close> and the right worker then stores its
  word: the flag of \<open>13\<close> is erased, \<open>bolMatch\<close> is \<open>[0, 0, 0, 0, 0, 1, 1, 0]\<close>, the scan
  gives \<open>[0, 0, 0, 0, 0, 1, 2, 2]\<close> with the total \<open>2\<close>, and the output is \<open>[15, 20]\<close>.
\<close>

theorem main_scenario_loses_flag:
  "splits (Split 4 Leaf Leaf) (0, 8) \<and> splits (Split 3 Leaf (Split 5 Leaf Leaf)) (0, 8) \<and>
   schedules (Split 4 Leaf Leaf, [1, 0]) (0, 8) \<and>
   doMap_vector_bool (Split 4 Leaf Leaf, [0, 0, 0, 0, 0, 0, 0, 1, 0, 1]) (vector_bool_n 8)
     main_input main_predicate 8 = Inr \<lparr>vb_words = [96], vb_size = 8\<rparr> \<and>
   vb_list \<lparr>vb_words = [96], vb_size = 8\<rparr>
     = [False, False, False, False, False, True, True, False] \<and>
   doScan (Split 3 Leaf (Split 5 Leaf Leaf)) (replicate 8 0)
       [False, False, False, False, False, True, True, False] 0 scanFunc of_bool 8
     = Inr (2, [0, 0, 0, 0, 0, 1, 2, 2]) \<and>
   main_output (Split 4 Leaf Leaf, [0, 0, 0, 0, 0, 0, 0, 1, 0, 1])
       (Split 3 Leaf (Split 5 Leaf Leaf)) (Split 4 Leaf Leaf, [1, 0])
     = Inr [15, 20] \<and>
   main_output (Split 4 Leaf Leaf, []) (Split 3 Leaf (Split 5 Leaf Leaf))
       (Split 4 Leaf Leaf, [1, 0])
     = Inr [13, 15, 20]"
proof -
  have "splits (Split 4 Leaf Leaf) (0, 8)" and "splits (Split 3 Leaf (Split 5 Leaf Leaf)) (0, 8)"
    and "schedules (Split 4 Leaf Leaf, [1, 0]) (0, 8)"
    by code_simp+
  moreover have "doMap_vector_bool (Split 4 Leaf Leaf, [0, 0, 0, 0, 0, 0, 0, 1, 0, 1])
      (vector_bool_n 8) main_input main_predicate 8 = Inr \<lparr>vb_words = [96], vb_size = 8\<rparr>"
    by code_simp
  moreover have "vb_list \<lparr>vb_words = [96], vb_size = 8\<rparr>
      = [False, False, False, False, False, True, True, False]"
    by code_simp
  moreover have "doScan (Split 3 Leaf (Split 5 Leaf Leaf)) (replicate 8 0)
       [False, False, False, False, False, True, True, False] 0 scanFunc of_bool 8
     = Inr (2, [0, 0, 0, 0, 0, 1, 2, 2])"
    by code_simp
  moreover have "main_output (Split 4 Leaf Leaf, [0, 0, 0, 0, 0, 0, 0, 1, 0, 1])
       (Split 3 Leaf (Split 5 Leaf Leaf)) (Split 4 Leaf Leaf, [1, 0]) = Inr [15, 20]"
    by code_simp
  moreover have "main_output (Split 4 Leaf Leaf, []) (Split 3 Leaf (Split 5 Leaf Leaf))
       (Split 4 Leaf Leaf, [1, 0]) = Inr [13, 15, 20]"
    by code_simp
  ultimately show ?thesis by blast
qed

text \<open>
  C9. The two variants of the inner loop of \<open>Body::operator()\<close>, the one with two loops
  chosen by \<open>Tag::is_final_scan()\<close> once (\<open>USE_OPTIMISED_LOOP = 1\<close>) and the one with
  a single loop that tests the tag in every iteration (\<open>USE_OPTIMISED_LOOP = 0\<close>), are
  equivalent: for every range, every incoming sum and both tags they leave the same
  accumulator and the same output array (and fail on the same inputs).
\<close>

theorem Body_call_variants_equal:
  "Body_call_optimised x is_final_scan r this y = Body_call_plain x is_final_scan r this y"
  by (cases is_final_scan)
    (simp_all add: Body_call_optimised_def Body_call_plain_def tagged_loop_final tagged_loop_pre)

text \<open>
  C10. For every combiner (associative or not), every identity argument and every input
  with \<open>n \<ge> 1\<close>, the value that \<open>doScan(out, in, ident, func, n)\<close> returns is
  \<open>out[n-1]\<close>, the last prefix that it has written.
\<close>

theorem doScan_returns_last_prefix:
  assumes "splits t (0, n)" and "1 \<le> n" and "n \<le> length inp" and "n \<le> length out"
  shows "\<exists>total out'. doScan t out inp ident func conv n = Inr (total, out') \<and>
           length out' = length out \<and> total = out' ! (n - 1)"
  using final_scan_last [OF assms(1) _ assms(3,4), of func conv ident ident] assms(2)
  by (auto simp: doScan_def parallel_scan_def parallel_scan_body_def)

theorem doScan_returns_last_prefix_witness:
  "splits (Split 2 Leaf Leaf) (0, 3) \<and>
   doScan (Split 2 Leaf Leaf) [0, 0, 0] [5, 3, 1 :: int] 0 (-) id 3 = Inr (7, [-5, -8, 7])"
proof -
  have h1: "splits (Split 2 Leaf Leaf) (0, 3)" by simp
  have h2: "1 \<le> (3 :: nat)" by simp
  have h3: "3 \<le> length [5, 3, 1 :: int]" by simp
  have h4: "3 \<le> length [0, 0, 0 :: int]" by simp
  have "doScan (Split 2 Leaf Leaf) [0, 0, 0] [5, 3, 1 :: int] 0 (-) id 3 = Inr (7, [-5, -8, 7])"
    by (simp add: doScan_def parallel_scan_def parallel_scan_body_def doScan_loop.simps)
  with h1 doScan_returns_last_prefix [OF h1 h2 h3 h4, of 0 "(-)" id] show ?thesis by simp
qed

end
